theory Spec2Isabelle
  imports Main "HOL-Library.AList"
begin

section \<open>JSON values and the JavaScript operations applied to them\<close>

text \<open>
  The message handler of \<^verbatim>\<open>websocket-provider.ts\<close> works on whatever
  \<^verbatim>\<open>JSON.parse\<close> returns. A parsed value is one of the six JSON shapes. Numbers
  are modelled as integers: identifiers and error codes are integers on the wire, and the
  provider's own counter \<^verbatim>\<open>NextId\<close> starts at 1 and is only ever incremented
  (JavaScript numbers are exact on integers below \<open>2 ^ 53\<close>; the model is about that
  range). An object is the list of its own properties, in creation order.
\<close>

datatype json =
    JNull
  | JBool bool
  | JNum int
  | JStr string
  | JArr "json list"
  | JObj "(string \<times> json) list"

text \<open>Decimal rendering of a number, as \<^verbatim>\<open>String(n)\<close> gives it for an integer.\<close>

definition digit_char :: "nat \<Rightarrow> char" where
  "digit_char d = ''0123456789'' ! d"

fun dec_of_nat :: "nat \<Rightarrow> string" where
  "dec_of_nat n =
     (if n < 10 then [digit_char n] else dec_of_nat (n div 10) @ [digit_char (n mod 10)])"

declare dec_of_nat.simps [simp del]

definition dec_of_int :: "int \<Rightarrow> string" where
  "dec_of_int i = (if i < 0 then CHR ''-'' # dec_of_nat (nat (- i)) else dec_of_nat (nat i))"

fun js_join :: "string list \<Rightarrow> string" where
  "js_join [] = []"
| "js_join [x] = x"
| "js_join (x # y # ys) = x @ '','' @ js_join (y # ys)"

text \<open>
  \<^verbatim>\<open>String(v)\<close>, which is also how a value becomes a property key in
  \<^verbatim>\<open>obj[v]\<close>. The value \<^verbatim>\<open>undefined\<close> (an absent property) is
  \<open>None\<close> and renders as \<^verbatim>\<open>"undefined"\<close>.
\<close>

fun js_String :: "json \<Rightarrow> string" where
  "js_String JNull = ''null''"
| "js_String (JBool b) = (if b then ''true'' else ''false'')"
| "js_String (JNum n) = dec_of_int n"
| "js_String (JStr s) = s"
| "js_String (JArr xs) = js_join (map (\<lambda>x. if x = JNull then [] else js_String x) xs)"
| "js_String (JObj kvs) = ''[object Object]''"

definition js_key :: "json option \<Rightarrow> string" where
  "js_key v = (case v of None \<Rightarrow> ''undefined'' | Some x \<Rightarrow> js_String x)"

text \<open>Truthiness, as \<^verbatim>\<open>if (v)\<close> and \<^verbatim>\<open>v || d\<close> test it.\<close>

fun truthy :: "json \<Rightarrow> bool" where
  "truthy JNull = False"
| "truthy (JBool b) = b"
| "truthy (JNum n) = (n \<noteq> 0)"
| "truthy (JStr s) = (s \<noteq> [])"
| "truthy (JArr xs) = True"
| "truthy (JObj kvs) = True"

text \<open>
  Exceptions that leave a handler or a setter. \<^verbatim>\<open>LoggerError message code operation\<close>
  is what \<^verbatim>\<open>logger.throwError(message, code, { operation })\<close> throws.
\<close>

datatype js_exn =
    SyntaxError
  | TypeError
  | LoggerError string string string

text \<open>
  Reading a property \<^verbatim>\<open>v.k\<close>: a \<^verbatim>\<open>TypeError\<close> on \<^verbatim>\<open>null\<close> and
  \<^verbatim>\<open>undefined\<close>, the property's value on an object that has it, and
  \<^verbatim>\<open>undefined\<close> otherwise (none of the names the provider reads exists on a
  number, a string, a boolean or an array).
\<close>

fun js_prop :: "json option \<Rightarrow> string \<Rightarrow> js_exn + json option" where
  "js_prop None k = Inl TypeError"
| "js_prop (Some JNull) k = Inl TypeError"
| "js_prop (Some (JObj kvs)) k = Inr (map_of kvs k)"
| "js_prop (Some v) k = Inr None"

text \<open>The same read on a value already known not to be \<^verbatim>\<open>null\<close>.\<close>

definition field :: "json \<Rightarrow> string \<Rightarrow> json option" where
  "field v k = (case v of JObj kvs \<Rightarrow> map_of kvs k | _ \<Rightarrow> None)"

section \<open>Objects used as dictionaries\<close>

text \<open>
  \<^verbatim>\<open>_requests\<close>, \<^verbatim>\<open>_subIds\<close> and \<^verbatim>\<open>_subs\<close> are objects indexed by
  strings, declared \<^verbatim>\<open>{ [ name: string ]: T }\<close>. The model keeps the own properties in
  creation order: \<open>map_of\<close> reads one, \<open>AList.update\<close> assigns one (in place when the
  key exists, at the end otherwise) and \<open>AList.delete\<close> is \<^verbatim>\<open>delete\<close>. What an
  object inherits from \<^verbatim>\<open>Object.prototype\<close> (under a key such as
  \<^verbatim>\<open>"constructor"\<close>) is not modelled.

  \<^verbatim>\<open>Object.keys\<close> lists the keys that are array indices (canonical decimal numerals
  below \<open>2 ^ 32 - 1\<close>) first, in ascending numeric order, and the other keys after them
  in creation order.
\<close>

type_synonym 'v obj = "(string \<times> 'v) list"

definition is_digit :: "char \<Rightarrow> bool" where
  "is_digit c = (48 \<le> (of_char c :: nat) \<and> (of_char c :: nat) \<le> 57)"

definition nat_of_dec :: "string \<Rightarrow> nat" where
  "nat_of_dec s = foldl (\<lambda>a c. 10 * a + (of_char c - 48)) 0 s"

fun canonical_numeric :: "string \<Rightarrow> bool" where
  "canonical_numeric [] = False"
| "canonical_numeric (c # cs) =
     (list_all is_digit (c # cs) \<and> (if c = CHR ''0'' then cs = [] else True))"

definition array_index :: "string \<Rightarrow> bool" where
  "array_index s = (canonical_numeric s \<and> nat_of_dec s < 2 ^ 32 - 1)"

definition Object_keys :: "'v obj \<Rightarrow> string list" where
  "Object_keys ob =
     (let ks = map fst ob
      in sort_key nat_of_dec (filter array_index ks) @ filter (\<lambda>k. \<not> array_index k) ks)"

section \<open>The provider's state\<close>

text \<open>
  The error object handed to a failing call: its message, its \<^verbatim>\<open>code\<close> property
  (\<open>None\<close> when the object has no such property) and its \<^verbatim>\<open>response\<close> property.
\<close>

datatype js_error = Error (err_message: string) (err_code: "json option") (err_response: "string option")

text \<open>
  Promises are kept in a store and named by their position in it. A pending promise holds
  the continuations registered on it, in registration order:
  \<^item> \<open>Adopt p\<close>: promise \<open>p\<close>, returned by \<^verbatim>\<open>then\<close>, takes the outcome of this one
    (the callback given to \<^verbatim>\<open>then\<close> returned it);
  \<^item> \<open>Bind tag f\<close>: the rest of \<^verbatim>\<open>_subscribe\<close> after its \<^verbatim>\<open>await\<close>;
  \<^item> \<open>Unsubscribe\<close>: the callback that \<^verbatim>\<open>_stopEvent\<close> passes to \<^verbatim>\<open>then\<close>.
  A dispatch function \<^verbatim>\<open>processFunc\<close> is named by a number and its calls are logged
  in \<open>dispatched\<close>; \<open>websocket_sent\<close> logs the payloads given to
  \<^verbatim>\<open>_websocket.send\<close>, \<open>console_warn\<close> the warnings. A payload is the object
  handed to \<^verbatim>\<open>JSON.stringify\<close>. \<open>param_waits\<close> holds the calls of
  \<^verbatim>\<open>Promise.all(param).then(...)\<close> whose parameters have not resolved yet, with the
  promise \<^verbatim>\<open>then\<close> returned. The module-level counter \<^verbatim>\<open>NextId\<close> is part
  of the state.
\<close>

datatype reaction = Adopt nat | Bind string nat | Unsubscribe

datatype promise = Pending "reaction list" | Fulfilled "json option" | Rejected js_error

record InflightRequest =
  callback :: nat
  payload :: json

record Subscription =
  tag :: string
  processFunc :: nat

record provider =
  NextId :: nat
  wsReady :: bool
  requests :: "InflightRequest obj"
  subIds :: "nat obj"
  subs :: "Subscription obj"
  promises :: "promise list"
  param_waits :: "(nat \<times> json list) list"
  websocket_sent :: "json list"
  dispatched :: "(nat \<times> json option) list"
  console_warn :: "string list"

text \<open>The state the constructor leaves, for a given value of the shared counter.\<close>

definition constructed :: "nat \<Rightarrow> provider" where
  "constructed n =
     \<lparr>NextId = n, wsReady = False, requests = [], subIds = [], subs = [], promises = [],
      param_waits = [], websocket_sent = [], dispatched = [], console_warn = []\<rparr>"

section \<open>send\<close>

definition stringify_request :: "string \<Rightarrow> json list option \<Rightarrow> nat \<Rightarrow> json" where
  "stringify_request method params rid =
     JObj ([(''method'', JStr method)]
           @ (case params of None \<Rightarrow> [] | Some ps \<Rightarrow> [(''params'', JArr ps)])
           @ [(''id'', JNum (int rid)), (''jsonrpc'', JStr ''2.0'')])"

text \<open>
  \<^verbatim>\<open>send\<close> returns the new promise (its position in the store); \<open>send_rid\<close> is
  its body and also gives the identifier \<^verbatim>\<open>rid\<close> that the call took from the counter.
\<close>

definition send_rid :: "string \<Rightarrow> json list option \<Rightarrow> provider \<Rightarrow> nat \<times> nat \<times> provider" where
  "send_rid method params s =
     (let rid = NextId s;
          s1 = s\<lparr>NextId := rid + 1\<rparr>;
          p = length (promises s1);
          s2 = s1\<lparr>promises := promises s1 @ [Pending []]\<rparr>;
          pl = stringify_request method params rid;
          s3 = s2\<lparr>requests := AList.update (dec_of_nat rid) \<lparr>callback = p, payload = pl\<rparr> (requests s2)\<rparr>;
          s4 = (if wsReady s3 then s3\<lparr>websocket_sent := websocket_sent s3 @ [pl]\<rparr> else s3)
      in (rid, p, s4))"

definition send :: "string \<Rightarrow> json list option \<Rightarrow> provider \<Rightarrow> nat \<times> provider" where
  "send method params s = snd (send_rid method params s)"

section \<open>Promise continuations\<close>

definition promise_at :: "provider \<Rightarrow> nat \<Rightarrow> promise option" where
  "promise_at s p = (if p < length (promises s) then Some (promises s ! p) else None)"

definition undefined_to_null :: "json option \<Rightarrow> json" where
  "undefined_to_null v = (case v of None \<Rightarrow> JNull | Some x \<Rightarrow> x)"

text \<open>
  The two continuations that work on a resolved subscription id: the tail of
  \<^verbatim>\<open>_subscribe\<close> stores the binding, the callback of \<^verbatim>\<open>_stopEvent\<close> removes
  it and sends \<^verbatim>\<open>eth_unsubscribe\<close>, unless no binding is there.
\<close>

fun run_reaction :: "json option \<Rightarrow> reaction \<Rightarrow> provider \<Rightarrow> provider" where
  "run_reaction subId (Bind tg f) s =
     s\<lparr>subs := AList.update (js_key subId) \<lparr>tag = tg, processFunc = f\<rparr> (subs s)\<rparr>"
| "run_reaction subId Unsubscribe s =
     (case map_of (subs s) (js_key subId) of
        None \<Rightarrow> s
      | Some b \<Rightarrow>
          snd (send ''eth_unsubscribe'' (Some [undefined_to_null subId])
                 (s\<lparr>subs := AList.delete (js_key subId) (subs s)\<rparr>)))"
| "run_reaction subId (Adopt p) s = s"

text \<open>Settling a promise returned by \<^verbatim>\<open>then\<close>: its continuations run in order.\<close>

definition fulfil :: "nat \<Rightarrow> json option \<Rightarrow> provider \<Rightarrow> provider" where
  "fulfil p v s =
     (case promise_at s p of
        Some (Pending rs) \<Rightarrow>
          foldl (\<lambda>s r. run_reaction v r s) (s\<lparr>promises := (promises s)[p := Fulfilled v]\<rparr>) rs
      | _ \<Rightarrow> s)"

definition reject_promise :: "nat \<Rightarrow> js_error \<Rightarrow> provider \<Rightarrow> provider" where
  "reject_promise p e s =
     (case promise_at s p of
        Some (Pending rs) \<Rightarrow> s\<lparr>promises := (promises s)[p := Rejected e]\<rparr>
      | _ \<Rightarrow> s)"

text \<open>
  Settling the promise of \<^verbatim>\<open>send\<close>: \<^verbatim>\<open>resolve(result)\<close> and
  \<^verbatim>\<open>reject(error)\<close>. A promise that adopted it is settled the same way. A rejection
  runs neither \<open>Bind\<close> (the \<^verbatim>\<open>await\<close> throws) nor \<open>Unsubscribe\<close>
  (\<^verbatim>\<open>then\<close> has no rejection handler).
\<close>

definition resolve :: "nat \<Rightarrow> json option \<Rightarrow> provider \<Rightarrow> provider" where
  "resolve q v s =
     (case promise_at s q of
        Some (Pending rs) \<Rightarrow>
          foldl (\<lambda>s r. case r of Adopt p \<Rightarrow> fulfil p v s | _ \<Rightarrow> run_reaction v r s)
            (s\<lparr>promises := (promises s)[q := Fulfilled v]\<rparr>) rs
      | _ \<Rightarrow> s)"

definition reject :: "nat \<Rightarrow> js_error \<Rightarrow> provider \<Rightarrow> provider" where
  "reject q e s =
     (case promise_at s q of
        Some (Pending rs) \<Rightarrow>
          foldl (\<lambda>s r. case r of Adopt p \<Rightarrow> reject_promise p e s | _ \<Rightarrow> s)
            (s\<lparr>promises := (promises s)[q := Rejected e]\<rparr>) rs
      | _ \<Rightarrow> s)"

text \<open>
  Registering a continuation (\<^verbatim>\<open>await p\<close>, \<^verbatim>\<open>p.then(f)\<close>): it waits on a pending
  promise and runs on a fulfilled one.
\<close>

definition promise_then :: "nat \<Rightarrow> reaction \<Rightarrow> provider \<Rightarrow> provider" where
  "promise_then p r s =
     (case promise_at s p of
        Some (Pending rs) \<Rightarrow> s\<lparr>promises := (promises s)[p := Pending (rs @ [r])]\<rparr>
      | Some (Fulfilled v) \<Rightarrow> run_reaction v r s
      | _ \<Rightarrow> s)"

text \<open>The callback that \<^verbatim>\<open>send\<close> stores with the request.\<close>

definition invoke_callback :: "InflightRequest \<Rightarrow> js_error option \<Rightarrow> json option \<Rightarrow> provider \<Rightarrow> provider" where
  "invoke_callback rq error result s =
     (case error of Some e \<Rightarrow> reject (callback rq) e s | None \<Rightarrow> resolve (callback rq) result s)"

section \<open>The transport's handlers\<close>

definition onopen :: "provider \<Rightarrow> provider" where
  "onopen s =
     (let s1 = s\<lparr>wsReady := True\<rparr>
      in foldl (\<lambda>s id. case map_of (requests s) id of
                          Some rq \<Rightarrow> s\<lparr>websocket_sent := websocket_sent s @ [payload rq]\<rparr>
                        | None \<Rightarrow> s)
           s1 (Object_keys (requests s1)))"

text \<open>
  The message handler gets the text \<open>data\<close> and what \<^verbatim>\<open>JSON.parse(data)\<close> makes
  of it (\<open>None\<close>: it throws a \<^verbatim>\<open>SyntaxError\<close>). It returns the exception that
  leaves the handler, if any, and the state at that point.
\<close>

definition make_error :: "json \<Rightarrow> string \<Rightarrow> js_error" where
  "make_error err data =
     (let m = (case field err ''message'' of
                 Some x \<Rightarrow> if truthy x then js_String x else ''unknown error''
               | None \<Rightarrow> ''unknown error'');
          c = (case field err ''code'' of
                 Some x \<Rightarrow> if truthy x then x else JNull
               | None \<Rightarrow> JNull)
      in Error m (Some c) (Some data))"

definition onmessage :: "string \<Rightarrow> json option \<Rightarrow> provider \<Rightarrow> js_exn option \<times> provider" where
  "onmessage data parsed s =
     (case parsed of
        None \<Rightarrow> (Some SyntaxError, s)
      | Some result \<Rightarrow>
         (case js_prop (Some result) ''id'' of
            Inl e \<Rightarrow> (Some e, s)
          | Inr rid \<Rightarrow>
             if rid \<noteq> None \<and> rid \<noteq> Some JNull then
               (let id = js_key rid;
                    request = map_of (requests s) id;
                    s1 = s\<lparr>requests := AList.delete id (requests s)\<rparr>
                in case request of
                     None \<Rightarrow> (Some TypeError, s1)
                   | Some rq \<Rightarrow>
                      (case field result ''result'' of
                         Some v \<Rightarrow> (None, invoke_callback rq None (Some v) s1)
                       | None \<Rightarrow>
                          (case field result ''error'' of
                             Some err \<Rightarrow>
                               if truthy err
                               then (None, invoke_callback rq (Some (make_error err data)) None s1)
                               else (None, invoke_callback rq (Some (Error ''unknown error'' None None)) None s1)
                           | None \<Rightarrow>
                               (None, invoke_callback rq (Some (Error ''unknown error'' None None)) None s1))))
             else if js_prop (Some result) ''method'' = Inr (Some (JStr ''eth_subscription'')) then
               (case js_prop (Some result) ''params'' of
                  Inl e \<Rightarrow> (Some e, s)
                | Inr params \<Rightarrow>
                   (case js_prop params ''subscription'' of
                      Inl e \<Rightarrow> (Some e, s)
                    | Inr subscription \<Rightarrow>
                       (case map_of (subs s) (js_key subscription) of
                          Some sub \<Rightarrow>
                            (None, s\<lparr>dispatched := dispatched s @
                                       [(processFunc sub, case params of Some ps \<Rightarrow> field ps ''result'' | None \<Rightarrow> None)]\<rparr>)
                        | None \<Rightarrow> (None, s))))
             else (None, s\<lparr>console_warn := console_warn s @ [''this should not happen'']\<rparr>)))"

section \<open>Operations the provider refuses\<close>

text \<open>
  Modelled from the spec: \<^verbatim>\<open>logger.throwError\<close> of the logger package and its error
  code \<^verbatim>\<open>Logger.errors.UNSUPPORTED_OPERATION\<close> are not in the source file; the call
  throws, at once, an error that carries the message, the code and the operation's name.
\<close>

definition UNSUPPORTED_OPERATION :: string where
  "UNSUPPORTED_OPERATION = ''UNSUPPORTED_OPERATION''"

definition throwError :: "string \<Rightarrow> string \<Rightarrow> string \<Rightarrow> js_exn + 'a" where
  "throwError msg errcode operation = Inl (LoggerError msg errcode operation)"

definition resetEventsBlock :: "int \<Rightarrow> provider \<Rightarrow> js_exn + provider" where
  "resetEventsBlock blockNumber s =
     throwError ''cannot reset events block on WebSocketProvider'' UNSUPPORTED_OPERATION ''resetEventBlock''"

definition set_pollingInterval :: "int \<Rightarrow> provider \<Rightarrow> js_exn + provider" where
  "set_pollingInterval v s =
     throwError ''cannot set polling interval on WebSocketProvider'' UNSUPPORTED_OPERATION ''setPollingInterval''"

definition set_polling :: "bool \<Rightarrow> provider \<Rightarrow> js_exn + provider" where
  "set_polling v s =
     (if \<not> v then Inr s
      else throwError ''cannot set polling on WebSocketProvider'' UNSUPPORTED_OPERATION ''setPolling'')"

section \<open>Subscriptions\<close>

text \<open>
  \<open>subscribe\<close> is \<^verbatim>\<open>_subscribe\<close>. Its \<open>param\<close> is the list of values that
  \<^verbatim>\<open>Promise.all(param)\<close> resolves to; when that happens is up to the environment, which
  then runs \<open>params_resolved\<close>, the callback given to \<^verbatim>\<open>then\<close>: it calls
  \<^verbatim>\<open>send\<close>, and the promise that \<^verbatim>\<open>then\<close> returned adopts the promise of
  \<^verbatim>\<open>send\<close>. If the parameters are rejected instead, the callback never runs: the
  entry then stays in \<open>param_waits\<close>. The \<^verbatim>\<open>await\<close> registers the rest of the
  function on the cached promise.
\<close>

definition subscribe :: "string \<Rightarrow> json list \<Rightarrow> nat \<Rightarrow> provider \<Rightarrow> provider" where
  "subscribe tg param f s =
     (case map_of (subIds s) tg of
        Some subIdPromise \<Rightarrow> promise_then subIdPromise (Bind tg f) s
      | None \<Rightarrow>
          (let subIdPromise = length (promises s);
               s1 = s\<lparr>promises := promises s @ [Pending []],
                      param_waits := param_waits s @ [(subIdPromise, param)]\<rparr>;
               s2 = s1\<lparr>subIds := AList.update tg subIdPromise (subIds s1)\<rparr>
           in promise_then subIdPromise (Bind tg f) s2))"

definition params_resolved :: "nat \<Rightarrow> provider \<Rightarrow> provider" where
  "params_resolved p s =
     (case map_of (param_waits s) p of
        None \<Rightarrow> s
      | Some param \<Rightarrow>
          (let s1 = s\<lparr>param_waits := AList.delete p (param_waits s)\<rparr>;
               (q, s2) = send ''eth_subscribe'' (Some param) s1
           in promise_then q (Adopt p) s2))"

text \<open>
  \<open>stopEvent\<close> is \<^verbatim>\<open>_stopEvent\<close>. The event's type and tag are its first two
  arguments. The two counts come from the base class, which is not in the source file:
  \<open>tx_events\<close> is the number of events of type \<^verbatim>\<open>"tx"\<close> left in
  \<^verbatim>\<open>_events\<close>, \<open>listeners\<close> is \<^verbatim>\<open>listenerCount(event.event)\<close>.
\<close>

definition teardown :: "string \<Rightarrow> provider \<Rightarrow> provider" where
  "teardown tg s =
     (case map_of (subIds s) tg of
        None \<Rightarrow> s
      | Some subId \<Rightarrow> promise_then subId Unsubscribe (s\<lparr>subIds := AList.delete tg (subIds s)\<rparr>))"

definition stopEvent :: "string \<Rightarrow> string \<Rightarrow> nat \<Rightarrow> nat \<Rightarrow> provider \<Rightarrow> provider" where
  "stopEvent ev_type ev_tag tx_events listeners s =
     (if ev_type = ''tx'' then (if tx_events \<noteq> 0 then s else teardown ''tx'' s)
      else if listeners \<noteq> 0 then s
      else teardown ev_tag s)"

section \<open>Runs of the provider\<close>

text \<open>
  What can happen to a provider, one event at a time: a call of one of its methods, or a
  signal from the transport or from a pending parameter list. An exception that leaves the
  message handler does not undo what the handler did before. \<^verbatim>\<open>NextId\<close> belongs to
  the module, not to one provider: \<open>OtherSend\<close> is a call of \<^verbatim>\<open>send\<close> on another
  provider of the same process, which takes an identifier from the same counter.
\<close>

datatype event =
    Send string "json list option"
  | Open
  | Message string "json option"
  | Subscribe string "json list" nat
  | ParamsResolved nat
  | StopEvent string string nat nat
  | OtherSend

fun step :: "event \<Rightarrow> provider \<Rightarrow> provider" where
  "step (Send method params) s = snd (send method params s)"
| "step Open s = onopen s"
| "step (Message data parsed) s = snd (onmessage data parsed s)"
| "step (Subscribe tg param f) s = subscribe tg param f s"
| "step (ParamsResolved p) s = params_resolved p s"
| "step (StopEvent ev_type ev_tag tx_events listeners) s = stopEvent ev_type ev_tag tx_events listeners s"
| "step OtherSend s = s\<lparr>NextId := NextId s + 1\<rparr>"

definition run :: "event list \<Rightarrow> provider \<Rightarrow> provider" where
  "run es s = foldl (\<lambda>s e. step e s) s es"


text \<open>
  A list of calls \<open>(method, params)\<close> as a run, and the payloads that the calls build when
  the first of them takes identifier \<open>n\<close>.
\<close>

definition send_events :: "(string \<times> json list option) list \<Rightarrow> event list" where
  "send_events calls = map (\<lambda>(method, params). Send method params) calls"

fun payloads_from :: "nat \<Rightarrow> (string \<times> json list option) list \<Rightarrow> json list" where
  "payloads_from n [] = []"
| "payloads_from n ((method, params) # calls) =
     stringify_request method params n # payloads_from (Suc n) calls"

section \<open>Predicates for the proofs\<close>

text \<open>The outcome that the handler gives the call of a matching response.\<close>

definition response_outcome :: "string \<Rightarrow> json \<Rightarrow> promise" where
  "response_outcome data result =
     (case field result ''result'' of
        Some v \<Rightarrow> Fulfilled (Some v)
      | None \<Rightarrow>
         (case field result ''error'' of
            Some err \<Rightarrow>
              if truthy err then Rejected (make_error err data)
              else Rejected (Error ''unknown error'' None None)
          | None \<Rightarrow> Rejected (Error ''unknown error'' None None)))"

text \<open>The promises that the pending calls settle.\<close>

definition callbacks :: "provider \<Rightarrow> nat list" where
  "callbacks s = map (\<lambda>(k, rq). callback rq) (requests s)"

text \<open>
  How a later state relates to an earlier one, whatever happened in between: the counter
  has not gone back, a ready transport is still ready, no promise has left the store, a
  settled promise has kept its outcome, a key of \<^verbatim>\<open>_requests\<close> is either an old
  one or the numeral of an identifier taken in between, and the promise of a pending call
  is either that of an old one or a promise made in between.
\<close>

definition advances :: "provider \<Rightarrow> provider \<Rightarrow> bool" where
  "advances s s' =
     (NextId s \<le> NextId s'
      \<and> (wsReady s \<longrightarrow> wsReady s')
      \<and> length (promises s) \<le> length (promises s')
      \<and> (\<forall>p < length (promises s). (\<forall>rs. promises s ! p \<noteq> Pending rs) \<longrightarrow> promises s' ! p = promises s ! p)
      \<and> (\<forall>k \<in> fst ` set (requests s').
            k \<in> fst ` set (requests s) \<or> (\<exists>n. NextId s \<le> n \<and> n < NextId s' \<and> k = dec_of_nat n))
      \<and> (\<forall>c \<in> set (callbacks s'). c \<in> set (callbacks s) \<or> length (promises s) \<le> c))"

text \<open>
  The states that the provider can be in. The promise of every pending call is in the
  store and pending, no two pending calls share a promise, and the key of a pending call
  is the numeral of an identifier already taken. A promise that waits to adopt another
  (\<open>Adopt\<close>, or an entry of \<open>param_waits\<close>) is in the store and is not the promise
  of a pending call.
\<close>

definition well_formed :: "provider \<Rightarrow> bool" where
  "well_formed s =
     (distinct (callbacks s)
      \<and> (\<forall>(k, rq) \<in> set (requests s).
            k \<in> dec_of_nat ` {..<NextId s}
            \<and> (\<exists>rs. promise_at s (callback rq) = Some (Pending rs)))
      \<and> (\<forall>q rs p.
            promise_at s q = Some (Pending rs) \<and> Adopt p \<in> set rs \<longrightarrow>
            p < length (promises s) \<and> p \<notin> set (callbacks s))
      \<and> (\<forall>(p, ps) \<in> set (param_waits s). p < length (promises s) \<and> p \<notin> set (callbacks s)))"

text \<open>
  The promises that the continuations \<open>rs\<close> would settle by adoption are in the store, and
  none of them is the promise of a pending call.
\<close>

definition adopts_ok :: "reaction list \<Rightarrow> provider \<Rightarrow> bool" where
  "adopts_ok rs s = (\<forall>p. Adopt p \<in> set rs \<longrightarrow> p < length (promises s) \<and> p \<notin> set (callbacks s))"

section \<open>Decimal numerals and the order of property keys\<close>

text \<open>
  The keys of \<^verbatim>\<open>_requests\<close> are the decimal numerals of the identifiers. Reading a
  numeral back gives the number, so distinct identifiers have distinct keys; and
  \<^verbatim>\<open>Object.keys\<close> lists keys made from increasing identifiers in that same order,
  whether or not they are below the bound for array indices.
\<close>

lemma of_char_digit_char: "d < 10 \<Longrightarrow> (of_char (digit_char d) :: nat) = 48 + d"
proof -
  assume "d < 10"
  then consider "d = 0" | "d = 1" | "d = 2" | "d = 3" | "d = 4" | "d = 5" | "d = 6" | "d = 7"
    | "d = 8" | "d = 9"
    by atomize_elim arith
  then show ?thesis
    by cases (simp_all add: digit_char_def)
qed

lemma nat_of_dec_snoc: "nat_of_dec (s @ [c]) = 10 * nat_of_dec s + (of_char c - 48)"
  by (simp add: nat_of_dec_def)

lemma nat_of_dec_of_nat: "nat_of_dec (dec_of_nat n) = n"
proof (induction n rule: dec_of_nat.induct)
  case (1 n)
  show ?case
  proof (cases "n < 10")
    case True
    then show ?thesis
      by (simp add: dec_of_nat.simps [of n] nat_of_dec_def of_char_digit_char)
  next
    case False
    then have "nat_of_dec (dec_of_nat (n div 10)) = n div 10"
      using 1 by simp
    then show ?thesis using False
      by (simp add: dec_of_nat.simps [of n] nat_of_dec_snoc of_char_digit_char)
  qed
qed

lemma dec_of_nat_inj: "dec_of_nat m = dec_of_nat n \<Longrightarrow> m = n"
  by (metis nat_of_dec_of_nat)

lemma is_digit_digit_char: "d < 10 \<Longrightarrow> is_digit (digit_char d)"
  by (simp add: is_digit_def of_char_digit_char)

lemma digits_dec_of_nat: "list_all is_digit (dec_of_nat n)"
proof (induction n rule: dec_of_nat.induct)
  case (1 n)
  then show ?case
    by (cases "n < 10") (simp_all add: dec_of_nat.simps [of n] is_digit_digit_char)
qed

lemma dec_of_nat_not_Nil: "dec_of_nat n \<noteq> []"
  by (subst dec_of_nat.simps) simp

lemma digit_char_zero: "d < 10 \<Longrightarrow> digit_char d = CHR ''0'' \<Longrightarrow> d = 0"
proof -
  assume d: "d < 10" and z: "digit_char d = CHR ''0''"
  have "(of_char (digit_char d) :: nat) = 48 + d"
    using d by (rule of_char_digit_char)
  then have "(of_char (CHR ''0'') :: nat) = 48 + d"
    unfolding z .
  then show ?thesis by simp
qed

lemma hd_dec_of_nat: "0 < n \<Longrightarrow> hd (dec_of_nat n) \<noteq> CHR ''0''"
proof (induction n rule: dec_of_nat.induct)
  case (1 n)
  show ?case
  proof (cases "n < 10")
    case True
    with 1(2) show ?thesis
      using digit_char_zero [of n] by (auto simp: dec_of_nat.simps [of n])
  next
    case False
    then have "0 < n div 10" by simp
    with 1(1) False have "hd (dec_of_nat (n div 10)) \<noteq> CHR ''0''" by simp
    then show ?thesis using False
      by (simp add: dec_of_nat.simps [of n] dec_of_nat_not_Nil)
  qed
qed

lemma canonical_numeric_iff:
  "canonical_numeric s = (s \<noteq> [] \<and> list_all is_digit s \<and> (if hd s = CHR ''0'' then tl s = [] else True))"
  by (cases s) auto

lemma canonical_dec_of_nat: "canonical_numeric (dec_of_nat n)"
proof (cases "n = 0")
  case True
  then show ?thesis
    by (simp add: dec_of_nat.simps [of 0] digit_char_def is_digit_def)
next
  case False
  then show ?thesis
    using hd_dec_of_nat [of n]
    by (simp add: canonical_numeric_iff dec_of_nat_not_Nil digits_dec_of_nat)
qed

lemma array_index_dec_of_nat: "array_index (dec_of_nat n) = (n < 2 ^ 32 - 1)"
  by (simp add: array_index_def canonical_dec_of_nat nat_of_dec_of_nat)

lemma filter_split_sorted:
  "sorted (is :: nat list) \<Longrightarrow> filter (\<lambda>i. i < b) is @ filter (\<lambda>i. \<not> i < b) is = is"
proof (induction "is")
  case Nil
  then show ?case by simp
next
  case (Cons i "is")
  show ?case
  proof (cases "i < b")
    case True
    with Cons show ?thesis by simp
  next
    case False
    with Cons.prems have "\<forall>j \<in> set is. \<not> j < b" by auto
    then have "filter (\<lambda>i. i < b) is = []" and "filter (\<lambda>i. \<not> i < b) is = is"
      by (simp_all add: filter_empty_conv filter_id_conv)
    with False show ?thesis by simp
  qed
qed

lemma Object_keys_increasing:
  assumes "map fst ob = map dec_of_nat is" and "sorted is"
  shows "Object_keys ob = map dec_of_nat is"
proof -
  let ?b = "2 ^ 32 - 1 :: nat"
  have a: "filter array_index (map dec_of_nat is) = map dec_of_nat (filter (\<lambda>i. i < ?b) is)"
    by (simp add: filter_map comp_def array_index_dec_of_nat)
  have b: "filter (\<lambda>k. \<not> array_index k) (map dec_of_nat is) = map dec_of_nat (filter (\<lambda>i. \<not> i < ?b) is)"
    by (simp add: filter_map comp_def array_index_dec_of_nat)
  have "sorted (map nat_of_dec (map dec_of_nat (filter (\<lambda>i. i < ?b) is)))"
    using assms(2) by (simp add: comp_def nat_of_dec_of_nat sorted_wrt_filter)
  then have c: "sort_key nat_of_dec (map dec_of_nat (filter (\<lambda>i. i < ?b) is))
      = map dec_of_nat (filter (\<lambda>i. i < ?b) is)"
    by (rule sort_key_id_if_sorted)
  have "Object_keys ob = map dec_of_nat (filter (\<lambda>i. i < ?b) is) @ map dec_of_nat (filter (\<lambda>i. \<not> i < ?b) is)"
    unfolding Object_keys_def Let_def assms(1) a b c by simp
  then show ?thesis
    using filter_split_sorted [OF assms(2), of ?b] by (metis map_append)
qed

section \<open>What every operation preserves\<close>

text \<open>
  Every method and handler takes a state to one that \<open>advances\<close> it. The continuations
  of a promise run inside the handler that settles it, so the lemmas go through them too.
\<close>

lemma update_fresh: "k \<notin> fst ` set al \<Longrightarrow> AList.update k v al = al @ [(k, v)]"
  by (induction al) auto

lemma send_rid_fst [simp]: "fst (send_rid m ps s) = NextId s"
  by (simp add: send_rid_def Let_def)

lemma send_fst [simp]: "fst (send m ps s) = length (promises s)"
  by (simp add: send_def send_rid_def Let_def)

lemma send_NextId [simp]: "NextId (snd (send m ps s)) = Suc (NextId s)"
  by (simp add: send_def send_rid_def Let_def)

lemma send_wsReady [simp]: "wsReady (snd (send m ps s)) = wsReady s"
  by (simp add: send_def send_rid_def Let_def)

lemma send_requests [simp]:
  "requests (snd (send m ps s)) =
     AList.update (dec_of_nat (NextId s))
       \<lparr>callback = length (promises s), payload = stringify_request m ps (NextId s)\<rparr> (requests s)"
  by (simp add: send_def send_rid_def Let_def)

lemma send_promises [simp]: "promises (snd (send m ps s)) = promises s @ [Pending []]"
  by (simp add: send_def send_rid_def Let_def)

lemma send_websocket_sent [simp]:
  "websocket_sent (snd (send m ps s)) =
     websocket_sent s @ (if wsReady s then [stringify_request m ps (NextId s)] else [])"
  by (simp add: send_def send_rid_def Let_def)

lemma send_others [simp]:
  "subIds (snd (send m ps s)) = subIds s"
  "subs (snd (send m ps s)) = subs s"
  "param_waits (snd (send m ps s)) = param_waits s"
  "dispatched (snd (send m ps s)) = dispatched s"
  "console_warn (snd (send m ps s)) = console_warn s"
  by (simp_all add: send_def send_rid_def Let_def)

lemma set_update_subset: "set (AList.update k v al) \<subseteq> insert (k, v) (set al)"
  by (induction al) auto

lemma set_delete_subset: "set (AList.delete k al) \<subseteq> set al"
  by (induction al) auto

lemma callbacks_update:
  assumes "c \<in> set (map (\<lambda>(k, rq). callback rq) (AList.update k v al))"
  shows "c = callback v \<or> c \<in> set (map (\<lambda>(k, rq). callback rq) al)"
proof -
  from assms obtain k' rq where "(k', rq) \<in> set (AList.update k v al)" and c: "c = callback rq"
    by auto
  then have "(k', rq) = (k, v) \<or> (k', rq) \<in> set al"
    using set_update_subset [of k v al] by auto
  then show ?thesis
    using c by force
qed

lemma callbacks_delete:
  assumes "c \<in> set (map (\<lambda>(k, rq). callback rq) (AList.delete k al))"
  shows "c \<in> set (map (\<lambda>(k, rq). callback rq) al)"
proof -
  from assms obtain k' rq where "(k', rq) \<in> set (AList.delete k al)" and c: "c = callback rq"
    by auto
  then have "(k', rq) \<in> set al"
    using set_delete_subset [of k al] by auto
  then show ?thesis
    using c by force
qed

lemma advances_refl [simp]: "advances s s"
  by (auto simp: advances_def)

lemma advances_trans:
  assumes "advances s t" and "advances t u"
  shows "advances s u"
proof -
  have a: "NextId s \<le> NextId u" and b: "wsReady s \<longrightarrow> wsReady u"
    and c: "length (promises s) \<le> length (promises u)"
    using assms by (auto simp: advances_def)
  have d: "\<forall>p < length (promises s). (\<forall>rs. promises s ! p \<noteq> Pending rs) \<longrightarrow>
      promises u ! p = promises s ! p"
    using assms unfolding advances_def
    by (metis (no_types, lifting) less_le_trans)
  have e: "\<forall>k \<in> fst ` set (requests u).
      k \<in> fst ` set (requests s) \<or> (\<exists>n. NextId s \<le> n \<and> n < NextId u \<and> k = dec_of_nat n)"
    using assms unfolding advances_def
    by (meson le_trans less_le_trans order.trans)
  have f: "\<forall>c \<in> set (callbacks u). c \<in> set (callbacks s) \<or> length (promises s) \<le> c"
    using assms unfolding advances_def
    by (meson le_trans)
  show ?thesis
    unfolding advances_def using a b c d e f by blast
qed

lemma advances_foldl:
  assumes "\<And>r s. advances s (g r s)"
  shows "advances s (foldl (\<lambda>s r. g r s) s rs)"
proof (induction rs arbitrary: s)
  case Nil
  then show ?case by simp
next
  case (Cons r rs)
  have "advances s (g r s)" by (rule assms)
  moreover have "advances (g r s) (foldl (\<lambda>s r. g r s) (g r s) rs)" by (rule Cons.IH)
  ultimately show ?case by (simp add: advances_trans)
qed

lemma fst_set_update: "fst ` set (AList.update k v al) = insert k (fst ` set al)"
  by (induction al) auto

lemma fst_set_delete: "fst ` set (AList.delete k al) = fst ` set al - {k}"
  by (induction al) auto

lemma callbacks_send:
  "c \<in> set (callbacks (snd (send m ps s))) \<Longrightarrow> c = length (promises s) \<or> c \<in> set (callbacks s)"
  unfolding callbacks_def send_requests by (drule callbacks_update) simp

lemma advances_send: "advances s (snd (send m ps s))"
  unfolding advances_def
  by (intro conjI) (auto simp: nth_append fst_set_update dest: callbacks_send)

lemma advances_frame:
  assumes "NextId s' = NextId s" "wsReady s' = wsReady s" "promises s' = promises s"
    "requests s' = requests s"
  shows "advances s s'"
  using assms by (auto simp: advances_def callbacks_def)

lemma advances_run_reaction: "advances s (run_reaction v r s)"
proof (cases r)
  case (Adopt p)
  then show ?thesis by simp
next
  case (Bind tg f)
  then show ?thesis by (simp add: advances_frame)
next
  case Unsubscribe
  show ?thesis
  proof (cases "map_of (subs s) (js_key v)")
    case None
    with Unsubscribe show ?thesis by simp
  next
    case (Some b)
    have "advances s (s\<lparr>subs := AList.delete (js_key v) (subs s)\<rparr>)"
      by (simp add: advances_frame)
    then show ?thesis
      using Unsubscribe Some advances_send advances_trans by (auto intro: advances_trans)
  qed
qed

lemma advances_settle:
  assumes "promise_at s p = Some (Pending rs)"
  shows "advances s (s\<lparr>promises := (promises s)[p := x]\<rparr>)"
  using assms
  by (auto simp: advances_def promise_at_def nth_list_update callbacks_def split: if_splits)

lemma advances_fulfil: "advances s (fulfil p v s)"
proof (cases "promise_at s p")
  case None
  then show ?thesis by (simp add: fulfil_def)
next
  case (Some pr)
  show ?thesis
  proof (cases pr)
    case (Pending rs)
    with Some have "advances s (s\<lparr>promises := (promises s)[p := Fulfilled v]\<rparr>)"
      by (simp add: advances_settle)
    moreover have "advances (s\<lparr>promises := (promises s)[p := Fulfilled v]\<rparr>)
        (foldl (\<lambda>s r. run_reaction v r s) (s\<lparr>promises := (promises s)[p := Fulfilled v]\<rparr>) rs)"
      by (rule advances_foldl) (rule advances_run_reaction)
    ultimately show ?thesis
      using Some Pending by (simp add: fulfil_def) (rule advances_trans)
  qed (simp_all add: fulfil_def Some)
qed

lemma advances_reject_promise: "advances s (reject_promise p e s)"
  by (auto simp: reject_promise_def advances_settle split: option.splits promise.splits)

lemma advances_resolve: "advances s (resolve q v s)"
proof (cases "promise_at s q")
  case None
  then show ?thesis by (simp add: resolve_def)
next
  case (Some pr)
  show ?thesis
  proof (cases pr)
    case (Pending rs)
    let ?g = "\<lambda>r s. case r of Adopt p \<Rightarrow> fulfil p v s | _ \<Rightarrow> run_reaction v r s"
    have g: "advances s (?g r s)" for r s
      by (cases r) (simp_all add: advances_fulfil advances_run_reaction del: run_reaction.simps)
    from Some Pending have "advances s (s\<lparr>promises := (promises s)[q := Fulfilled v]\<rparr>)"
      by (simp add: advances_settle)
    moreover have "advances (s\<lparr>promises := (promises s)[q := Fulfilled v]\<rparr>)
        (foldl (\<lambda>s r. ?g r s) (s\<lparr>promises := (promises s)[q := Fulfilled v]\<rparr>) rs)"
      by (rule advances_foldl) (rule g)
    ultimately show ?thesis
      using Some Pending by (simp add: resolve_def) (rule advances_trans)
  qed (simp_all add: resolve_def Some)
qed

lemma advances_reject: "advances s (reject q e s)"
proof (cases "promise_at s q")
  case None
  then show ?thesis by (simp add: reject_def)
next
  case (Some pr)
  show ?thesis
  proof (cases pr)
    case (Pending rs)
    let ?g = "\<lambda>r s. case r of Adopt p \<Rightarrow> reject_promise p e s | _ \<Rightarrow> s"
    have g: "advances s (?g r s)" for r s
      by (cases r) (simp_all add: advances_reject_promise)
    from Some Pending have "advances s (s\<lparr>promises := (promises s)[q := Rejected e]\<rparr>)"
      by (simp add: advances_settle)
    moreover have "advances (s\<lparr>promises := (promises s)[q := Rejected e]\<rparr>)
        (foldl (\<lambda>s r. ?g r s) (s\<lparr>promises := (promises s)[q := Rejected e]\<rparr>) rs)"
      by (rule advances_foldl) (rule g)
    ultimately show ?thesis
      using Some Pending by (simp add: reject_def) (rule advances_trans)
  qed (simp_all add: reject_def Some)
qed

lemma advances_promise_then: "advances s (promise_then p r s)"
  by (auto simp: promise_then_def advances_settle advances_run_reaction
      split: option.splits promise.splits)

lemma advances_invoke_callback: "advances s (invoke_callback rq err res s)"
  by (simp add: invoke_callback_def advances_resolve advances_reject split: option.splits)

lemma callbacks_requests_delete:
  "c \<in> set (callbacks (s\<lparr>requests := AList.delete k (requests s)\<rparr>)) \<Longrightarrow> c \<in> set (callbacks s)"
proof -
  assume "c \<in> set (callbacks (s\<lparr>requests := AList.delete k (requests s)\<rparr>))"
  then have "c \<in> set (map (\<lambda>(k, rq). callback rq) (AList.delete k (requests s)))"
    by (simp add: callbacks_def)
  then have "c \<in> set (map (\<lambda>(k, rq). callback rq) (requests s))"
    by (rule callbacks_delete)
  then show ?thesis
    by (simp add: callbacks_def)
qed

lemma advances_requests_delete: "advances s (s\<lparr>requests := AList.delete k (requests s)\<rparr>)"
  unfolding advances_def
  by (intro conjI) (auto simp: fst_set_delete dest: callbacks_requests_delete)

lemma advances_onopen: "advances s (onopen s)"
proof -
  let ?g = "\<lambda>id s. case map_of (requests s) id of
      Some rq \<Rightarrow> s\<lparr>websocket_sent := websocket_sent s @ [payload rq]\<rparr> | None \<Rightarrow> s"
  have g: "advances s (?g id s)" for id s
    by (simp add: advances_frame split: option.splits)
  have "advances s (s\<lparr>wsReady := True\<rparr>)"
    by (auto simp: advances_def callbacks_def)
  moreover have "advances (s\<lparr>wsReady := True\<rparr>)
      (foldl (\<lambda>s id. ?g id s) (s\<lparr>wsReady := True\<rparr>) (Object_keys (requests s)))"
    by (rule advances_foldl) (rule g)
  ultimately show ?thesis
    by (simp add: onopen_def Let_def) (rule advances_trans)
qed

lemma advances_onmessage: "advances s (snd (onmessage data parsed s))"
  unfolding onmessage_def
  by (auto simp: Let_def advances_frame
      intro: advances_trans [OF advances_requests_delete advances_invoke_callback]
        advances_requests_delete
      split: option.splits sum.splits)

lemma advances_subscribe: "advances s (subscribe tg param f s)"
proof (cases "map_of (subIds s) tg")
  case None
  let ?s2 = "s\<lparr>promises := promises s @ [Pending []],
      param_waits := param_waits s @ [(length (promises s), param)],
      subIds := AList.update tg (length (promises s)) (subIds s)\<rparr>"
  have "advances s ?s2"
    by (auto simp: advances_def nth_append callbacks_def)
  moreover have "advances ?s2 (promise_then (length (promises s)) (Bind tg f) ?s2)"
    by (rule advances_promise_then)
  ultimately show ?thesis
    using None by (simp add: subscribe_def Let_def) (rule advances_trans)
next
  case (Some p)
  then show ?thesis
    by (simp add: subscribe_def advances_promise_then)
qed

lemma advances_params_resolved: "advances s (params_resolved p s)"
proof (cases "map_of (param_waits s) p")
  case None
  then show ?thesis by (simp add: params_resolved_def)
next
  case (Some param)
  let ?s1 = "s\<lparr>param_waits := AList.delete p (param_waits s)\<rparr>"
  let ?s2 = "snd (send ''eth_subscribe'' (Some param) ?s1)"
  have "advances s ?s1" by (simp add: advances_frame)
  moreover have "advances ?s1 ?s2" by (rule advances_send)
  moreover have "advances ?s2 (promise_then (length (promises s)) (Adopt p) ?s2)"
    by (rule advances_promise_then)
  ultimately have "advances s (promise_then (length (promises s)) (Adopt p) ?s2)"
    by (blast intro: advances_trans)
  then show ?thesis
    using Some by (simp add: params_resolved_def Let_def split_beta)
qed

lemma advances_teardown: "advances s (teardown tg s)"
proof (cases "map_of (subIds s) tg")
  case None
  then show ?thesis by (simp add: teardown_def)
next
  case (Some p)
  let ?s1 = "s\<lparr>subIds := AList.delete tg (subIds s)\<rparr>"
  have "advances s ?s1" by (simp add: advances_frame)
  moreover have "advances ?s1 (promise_then p Unsubscribe ?s1)"
    by (rule advances_promise_then)
  ultimately show ?thesis
    using Some by (simp add: teardown_def) (rule advances_trans)
qed

lemma advances_stopEvent: "advances s (stopEvent ty tg txs ls s)"
  by (simp add: stopEvent_def advances_teardown)

lemma advances_other_send: "advances s (s\<lparr>NextId := Suc (NextId s)\<rparr>)"
  unfolding advances_def by (simp add: callbacks_def)

lemma advances_step: "advances s (step e s)"
  by (cases e)
    (simp_all add: advances_send advances_onopen advances_onmessage advances_subscribe
      advances_params_resolved advances_stopEvent advances_other_send)

lemma advances_run: "advances s (run es s)"
  unfolding run_def by (rule advances_foldl) (rule advances_step)

lemma run_Cons [simp]: "run (e # es) s = run es (step e s)"
  by (simp add: run_def)

lemma run_Nil [simp]: "run [] s = s"
  by (simp add: run_def)

lemma run_append [simp]: "run (es @ fs) s = run fs (run es s)"
  by (simp add: run_def)


section \<open>Request identifiers\<close>





section \<open>Buffered calls and the open signal\<close>

lemma onopen_loop:
  "foldl (\<lambda>s id. case map_of (requests s) id of
                          Some rq \<Rightarrow> s\<lparr>websocket_sent := websocket_sent s @ [payload rq]\<rparr>
                        | None \<Rightarrow> s) s ks
   = s\<lparr>websocket_sent := websocket_sent s @
        concat (map (\<lambda>id. case map_of (requests s) id of Some rq \<Rightarrow> [payload rq] | None \<Rightarrow> []) ks)\<rparr>"
proof (induction ks arbitrary: s)
  case Nil
  then show ?case by simp
next
  case (Cons k ks)
  show ?case
    by (cases "map_of (requests s) k") (simp_all add: Cons.IH)
qed

lemma onopen_eq:
  "onopen s = s\<lparr>wsReady := True, websocket_sent := websocket_sent s @
        concat (map (\<lambda>id. case map_of (requests s) id of Some rq \<Rightarrow> [payload rq] | None \<Rightarrow> [])
          (Object_keys (requests s)))\<rparr>"
  by (simp add: onopen_def Let_def onopen_loop)

lemma lookup_all_keys:
  "distinct (map fst al) \<Longrightarrow>
   concat (map (\<lambda>k. case map_of al k of Some rq \<Rightarrow> [f rq] | None \<Rightarrow> []) (map fst al)) = map (f \<circ> snd) al"
proof (induction al)
  case Nil
  then show ?case by simp
next
  case (Cons a al)
  obtain k v where a: "a = (k, v)" by (cases a)
  from Cons.prems a have k: "k \<notin> set (map fst al)" and d: "distinct (map fst al)" by auto
  let ?F = "\<lambda>k'. case map_of (a # al) k' of Some rq \<Rightarrow> [f rq] | None \<Rightarrow> []"
  let ?G = "\<lambda>k'. case map_of al k' of Some rq \<Rightarrow> [f rq] | None \<Rightarrow> []"
  have "map ?F (map fst al) = map ?G (map fst al)"
  proof (rule map_cong [OF refl])
    fix x assume "x \<in> set (map fst al)"
    with k have "x \<noteq> k" by auto
    then show "?F x = ?G x" by (simp add: a)
  qed
  then have "concat (map ?F (map fst al)) = map (f \<circ> snd) al"
    using Cons.IH [OF d] by (simp only:)
  moreover have "?F k = [f v]" by (simp add: a)
  moreover have "concat (map ?F (map fst (a # al))) = ?F k @ concat (map ?F (map fst al))"
    by (simp only: a list.map fst_conv concat.simps)
  ultimately have "concat (map ?F (map fst (a # al))) = [f v] @ map (f \<circ> snd) al"
    by (simp only:)
  then show ?case
    by (simp add: a)
qed

lemma run_send_events:
  assumes "\<not> wsReady s" and "map fst (requests s) = map dec_of_nat is"
    and "list_all (\<lambda>i. i < NextId s) is"
  shows "\<not> wsReady (run (send_events calls) s)
    \<and> websocket_sent (run (send_events calls) s) = websocket_sent s
    \<and> NextId (run (send_events calls) s) = NextId s + length calls
    \<and> map fst (requests (run (send_events calls) s))
        = map dec_of_nat (is @ [NextId s ..< NextId s + length calls])
    \<and> map (payload \<circ> snd) (requests (run (send_events calls) s))
        = map (payload \<circ> snd) (requests s) @ payloads_from (NextId s) calls"
  using assms
proof (induction calls arbitrary: s "is")
  case Nil
  then show ?case by (simp add: send_events_def)
next
  case (Cons c calls)
  obtain m ps where c: "c = (m, ps)" by (cases c)
  let ?s1 = "snd (send m ps s)"
  have fresh: "dec_of_nat (NextId s) \<notin> fst ` set (requests s)"
  proof
    assume "dec_of_nat (NextId s) \<in> fst ` set (requests s)"
    then have "dec_of_nat (NextId s) \<in> set (map dec_of_nat is)"
      using Cons.prems(2) by (metis set_map)
    then obtain i where "i \<in> set is" "dec_of_nat i = dec_of_nat (NextId s)" by auto
    then show False
      using Cons.prems(3) dec_of_nat_inj [of i "NextId s"] by (auto simp: list_all_iff)
  qed
  have r1: "requests ?s1 = requests s @
      [(dec_of_nat (NextId s), \<lparr>callback = length (promises s), payload = stringify_request m ps (NextId s)\<rparr>)]"
    by (simp add: update_fresh [OF fresh])
  have a1: "\<not> wsReady ?s1" using Cons.prems(1) by simp
  have a2: "map fst (requests ?s1) = map dec_of_nat (is @ [NextId s])"
    using Cons.prems(2) by (simp add: update_fresh [OF fresh])
  have a3: "list_all (\<lambda>i. i < NextId ?s1) (is @ [NextId s])"
    using Cons.prems(3) by (auto simp: list_all_iff)
  note IH = Cons.IH [OF a1 a2 a3]
  have run: "run (send_events (c # calls)) s = run (send_events calls) ?s1"
    by (simp add: send_events_def c)
  have upt: "[NextId s ..< NextId s + length (c # calls)] = NextId s # [Suc (NextId s) ..< Suc (NextId s) + length calls]"
    by (simp add: upt_rec)
  show ?case
    unfolding run upt using IH Cons.prems(1) by (simp add: update_fresh [OF fresh] c)
qed

text \<open>
  C3. A provider whose transport is not ready and that has no pending call is given the
  calls \<open>calls\<close> and then the open signal. Before the signal the transport receives
  nothing; at the signal it receives the payloads of these calls, each once, in the order
  of the calls. From then on, whatever else happens (\<open>es\<close>), the provider is ready and
  a call's payload goes to the transport inside the call.
\<close>

theorem buffered_calls_flushed_in_order:
  assumes "\<not> wsReady s" and "requests s = []"
  shows "websocket_sent (run (send_events calls) s) = websocket_sent s
    \<and> websocket_sent (run (send_events calls @ [Open]) s)
        = websocket_sent s @ payloads_from (NextId s) calls
    \<and> wsReady (run (send_events calls @ [Open] @ es) s)
    \<and> websocket_sent (snd (send method params (run (send_events calls @ [Open] @ es) s)))
        = websocket_sent (run (send_events calls @ [Open] @ es) s)
          @ [stringify_request method params (NextId (run (send_events calls @ [Open] @ es) s))]"
proof -
  let ?t = "run (send_events calls) s"
  let ?ids = "[NextId s ..< NextId s + length calls]"
  have "map fst (requests s) = map dec_of_nat []" and "list_all (\<lambda>i. i < NextId s) []"
    using assms(2) by simp_all
  note sends = run_send_events [OF assms(1) this, of calls]
  then have keys: "map fst (requests ?t) = map dec_of_nat ?ids"
    and pls: "map (payload \<circ> snd) (requests ?t) = payloads_from (NextId s) calls"
    and sent: "websocket_sent ?t = websocket_sent s"
    using assms(2) by simp_all
  have "inj_on dec_of_nat (set ?ids)"
    by (rule inj_onI) (rule dec_of_nat_inj)
  then have dist: "distinct (map fst (requests ?t))"
    unfolding keys by (simp add: distinct_map)
  have ok: "Object_keys (requests ?t) = map fst (requests ?t)"
    using Object_keys_increasing [OF keys] keys by simp
  have flushed: "websocket_sent (onopen ?t) = websocket_sent s @ payloads_from (NextId s) calls"
    unfolding onopen_eq ok using lookup_all_keys [OF dist, of payload] pls sent by simp
  let ?u = "run (send_events calls @ [Open] @ es) s"
  have "wsReady (onopen ?t)"
    by (simp add: onopen_eq)
  moreover have "advances (onopen ?t) ?u"
    using advances_run [of "onopen ?t" es] by simp
  ultimately have ready: "wsReady ?u"
    by (simp add: advances_def)
  show ?thesis
    using sent flushed ready by simp
qed

theorem buffered_calls_flushed_in_order_witness:
  "websocket_sent (run (send_events [(''eth_blockNumber'', Some []), (''eth_chainId'', None)] @ [Open]) (constructed 7))
     = [stringify_request ''eth_blockNumber'' (Some []) 7, stringify_request ''eth_chainId'' None 8]
   \<and> websocket_sent (snd (send ''eth_gasPrice'' None
         (run (send_events [(''eth_blockNumber'', Some []), (''eth_chainId'', None)] @ [Open] @ []) (constructed 7))))
     = [stringify_request ''eth_blockNumber'' (Some []) 7, stringify_request ''eth_chainId'' None 8,
        stringify_request ''eth_gasPrice'' None 9]"
proof -
  have a: "\<not> wsReady (constructed 7)" and b: "requests (constructed 7) = []"
    by (simp_all add: constructed_def)
  have n: "NextId (constructed 7) = 7" "websocket_sent (constructed 7) = []"
    by (simp_all add: constructed_def)
  have m: "NextId (run (send_events [(''eth_blockNumber'', Some []), (''eth_chainId'', None)] @ [Open]) (constructed 7)) = 9"
    by (simp add: send_events_def onopen_eq constructed_def)
  show ?thesis
    using buffered_calls_flushed_in_order [OF a b,
        of "[(''eth_blockNumber'', Some []), (''eth_chainId'', None)]" "[]" "''eth_gasPrice''" None]
    by (simp add: n m del: run_append)
qed

section \<open>The states a provider can be in\<close>

text \<open>
  \<open>well_formed\<close> holds after the constructor and is kept by every event, so it holds
  in every state that a run reaches. The promise of a pending call is settled only by the
  response that removes the call: the other promises that get settled inside a handler are
  those that adopted it, and they are never the promise of a pending call.
\<close>

lemma advances_resolve_reaction:
  "advances s (case r of Adopt p \<Rightarrow> fulfil p v s | _ \<Rightarrow> run_reaction v r s)"
  by (cases r) (simp_all add: advances_fulfil advances_run_reaction del: run_reaction.simps)

lemma advances_reject_reaction:
  "advances s (case r of Adopt p \<Rightarrow> reject_promise p e s | _ \<Rightarrow> s)"
  by (cases r) (simp_all add: advances_reject_promise)

lemma well_formedI:
  assumes "distinct (callbacks s)"
    and "\<And>k rq. (k, rq) \<in> set (requests s) \<Longrightarrow> k \<in> dec_of_nat ` {..<NextId s}"
    and "\<And>k rq. (k, rq) \<in> set (requests s) \<Longrightarrow> \<exists>rs. promise_at s (callback rq) = Some (Pending rs)"
    and "\<And>q rs p. promise_at s q = Some (Pending rs) \<Longrightarrow> Adopt p \<in> set rs \<Longrightarrow>
          p < length (promises s) \<and> p \<notin> set (callbacks s)"
    and "\<And>p ps. (p, ps) \<in> set (param_waits s) \<Longrightarrow> p < length (promises s) \<and> p \<notin> set (callbacks s)"
  shows "well_formed s"
  unfolding well_formed_def using assms by blast

lemma well_formed_distinct: "well_formed s \<Longrightarrow> distinct (callbacks s)"
  by (simp add: well_formed_def)

lemma well_formed_key:
  "well_formed s \<Longrightarrow> (k, rq) \<in> set (requests s) \<Longrightarrow> k \<in> dec_of_nat ` {..<NextId s}"
  unfolding well_formed_def by blast

lemma well_formed_pending:
  "well_formed s \<Longrightarrow> (k, rq) \<in> set (requests s) \<Longrightarrow> \<exists>rs. promise_at s (callback rq) = Some (Pending rs)"
  unfolding well_formed_def by blast

lemma well_formed_adopt:
  "well_formed s \<Longrightarrow> promise_at s q = Some (Pending rs) \<Longrightarrow> Adopt p \<in> set rs \<Longrightarrow>
   p < length (promises s) \<and> p \<notin> set (callbacks s)"
  unfolding well_formed_def by blast

lemma well_formed_param_waits:
  "well_formed s \<Longrightarrow> (p, ps) \<in> set (param_waits s) \<Longrightarrow> p < length (promises s) \<and> p \<notin> set (callbacks s)"
  unfolding well_formed_def by blast

lemma well_formed_frame:
  assumes "well_formed s" and "NextId s' = NextId s" and "requests s' = requests s"
    and "promises s' = promises s" and "param_waits s' = param_waits s"
  shows "well_formed s'"
proof -
  have c: "callbacks s' = callbacks s" and p: "promise_at s' = promise_at s"
    using assms by (simp_all add: callbacks_def promise_at_def fun_eq_iff)
  show ?thesis
    using assms(1) unfolding well_formed_def c p assms(2-5) .
qed

lemma well_formed_constructed: "well_formed (constructed n)"
  by (simp add: well_formed_def constructed_def callbacks_def promise_at_def)

lemma in_callbacks: "c \<in> set (callbacks s) \<longleftrightarrow> (\<exists>k rq. (k, rq) \<in> set (requests s) \<and> c = callback rq)"
  by (force simp: callbacks_def)

lemma promise_at_Some_bound: "promise_at s q = Some x \<Longrightarrow> q < length (promises s)"
  by (simp add: promise_at_def split: if_splits)

lemma well_formed_callback_bound:
  assumes "well_formed s" and "c \<in> set (callbacks s)"
  shows "c < length (promises s)"
proof -
  from assms(2) obtain k rq where "(k, rq) \<in> set (requests s)" "c = callback rq"
    by (auto simp: in_callbacks)
  then show ?thesis
    using well_formed_pending [OF assms(1)] promise_at_Some_bound by blast
qed

lemma well_formed_key_fresh:
  assumes "well_formed s"
  shows "dec_of_nat (NextId s) \<notin> fst ` set (requests s)"
proof
  assume "dec_of_nat (NextId s) \<in> fst ` set (requests s)"
  then obtain rq where "(dec_of_nat (NextId s), rq) \<in> set (requests s)" by auto
  with assms have "dec_of_nat (NextId s) \<in> dec_of_nat ` {..<NextId s}"
    by (rule well_formed_key)
  then obtain i where "i < NextId s" "dec_of_nat (NextId s) = dec_of_nat i" by auto
  then show False
    using dec_of_nat_inj [of "NextId s" i] by simp
qed

lemma promise_at_update:
  "promise_at (s\<lparr>promises := (promises s)[q := x]\<rparr>) q' =
     (if q' = q \<and> q < length (promises s) then Some x else promise_at s q')"
  by (simp add: promise_at_def)

lemma promise_at_send:
  "promise_at (snd (send m ps s)) q =
     (if q = length (promises s) then Some (Pending []) else promise_at s q)"
  by (simp add: promise_at_def nth_append)

lemma well_formed_send:
  assumes "well_formed s"
  shows "well_formed (snd (send m ps s))"
proof -
  let ?n = "length (promises s)"
  let ?t = "snd (send m ps s)"
  let ?rq = "\<lparr>callback = ?n, payload = stringify_request m ps (NextId s)\<rparr>"
  have r: "requests ?t = requests s @ [(dec_of_nat (NextId s), ?rq)]"
    using update_fresh [OF well_formed_key_fresh [OF assms]] by simp
  have cb: "callbacks ?t = callbacks s @ [?n]"
    unfolding callbacks_def r by simp
  have bound: "c < ?n" if "c \<in> set (callbacks s)" for c
    using assms that by (rule well_formed_callback_bound)
  show ?thesis
  proof (rule well_formedI)
    show "distinct (callbacks ?t)"
      unfolding cb using well_formed_distinct [OF assms] bound by auto
  next
    fix k rq assume "(k, rq) \<in> set (requests ?t)"
    then have "(k, rq) \<in> set (requests s) \<or> k = dec_of_nat (NextId s)"
      unfolding r by auto
    then show "k \<in> dec_of_nat ` {..<NextId ?t}"
      using well_formed_key [OF assms] by (auto simp: lessThan_Suc)
  next
    fix k rq assume "(k, rq) \<in> set (requests ?t)"
    then consider "(k, rq) \<in> set (requests s)" | "rq = ?rq"
      unfolding r by auto
    then show "\<exists>rs. promise_at ?t (callback rq) = Some (Pending rs)"
    proof cases
      case 1
      then obtain rs where "promise_at s (callback rq) = Some (Pending rs)"
        using well_formed_pending [OF assms] by blast
      then show ?thesis
        by (auto simp: promise_at_send)
    next
      case 2
      then show ?thesis by (simp add: promise_at_send)
    qed
  next
    fix q rs p assume q: "promise_at ?t q = Some (Pending rs)" and a: "Adopt p \<in> set rs"
    then have "promise_at s q = Some (Pending rs)"
      by (auto simp: promise_at_send split: if_splits)
    then have "p < ?n \<and> p \<notin> set (callbacks s)"
      using a well_formed_adopt [OF assms] by blast
    then show "p < length (promises ?t) \<and> p \<notin> set (callbacks ?t)"
      unfolding cb by simp
  next
    fix p ps assume "(p, ps) \<in> set (param_waits ?t)"
    then have "p < ?n \<and> p \<notin> set (callbacks s)"
      using well_formed_param_waits [OF assms] by simp
    then show "p < length (promises ?t) \<and> p \<notin> set (callbacks ?t)"
      unfolding cb by simp
  qed
qed

lemma well_formed_settle:
  assumes "well_formed s" and "q \<notin> set (callbacks s)" and "\<And>rs. x \<noteq> Pending rs"
  shows "well_formed (s\<lparr>promises := (promises s)[q := x]\<rparr>)"
proof (rule well_formedI)
  let ?t = "s\<lparr>promises := (promises s)[q := x]\<rparr>"
  have cb: "callbacks ?t = callbacks s" by (simp add: callbacks_def)
  show "distinct (callbacks ?t)"
    unfolding cb by (rule well_formed_distinct [OF assms(1)])
  show "k \<in> dec_of_nat ` {..<NextId ?t}" if "(k, rq) \<in> set (requests ?t)" for k rq
    using that well_formed_key [OF assms(1)] by simp
  show "\<exists>rs. promise_at ?t (callback rq) = Some (Pending rs)" if "(k, rq) \<in> set (requests ?t)" for k rq
  proof -
    from that have m: "(k, rq) \<in> set (requests s)" by simp
    then have "callback rq \<noteq> q"
      using assms(2) by (auto simp: in_callbacks)
    then show ?thesis
      using well_formed_pending [OF assms(1) m] by (simp add: promise_at_update)
  qed
  show "p < length (promises ?t) \<and> p \<notin> set (callbacks ?t)"
    if "promise_at ?t q' = Some (Pending rs)" "Adopt p \<in> set rs" for q' rs p
  proof -
    from that(1) assms(3) have "promise_at s q' = Some (Pending rs)"
      by (auto simp: promise_at_update split: if_splits)
    then show ?thesis
      unfolding cb using well_formed_adopt [OF assms(1)] that(2) by simp
  qed
  show "p < length (promises ?t) \<and> p \<notin> set (callbacks ?t)" if "(p, ps) \<in> set (param_waits ?t)" for p ps
    unfolding cb using that well_formed_param_waits [OF assms(1)] by simp
qed

lemma well_formed_run_reaction:
  assumes "well_formed s"
  shows "well_formed (run_reaction v r s)"
proof (cases r)
  case (Adopt p)
  with assms show ?thesis by simp
next
  case (Bind tg f)
  with assms show ?thesis by (simp add: well_formed_frame)
next
  case Unsubscribe
  have "well_formed (s\<lparr>subs := AList.delete (js_key v) (subs s)\<rparr>)"
    using assms by (rule well_formed_frame) simp_all
  then show ?thesis
    using Unsubscribe assms by (simp add: well_formed_send split: option.splits)
qed

lemma well_formed_foldl:
  assumes "\<And>r s. well_formed s \<Longrightarrow> well_formed (g r s)" and "well_formed s"
  shows "well_formed (foldl (\<lambda>s r. g r s) s rs)"
  using assms(2) by (induction rs arbitrary: s) (simp_all add: assms(1))

lemma well_formed_fulfil:
  assumes "well_formed s" and "p \<notin> set (callbacks s)"
  shows "well_formed (fulfil p v s)"
proof (cases "promise_at s p")
  case None
  with assms show ?thesis by (simp add: fulfil_def)
next
  case (Some pr)
  show ?thesis
  proof (cases pr)
    case (Pending rs)
    have "well_formed (s\<lparr>promises := (promises s)[p := Fulfilled v]\<rparr>)"
      using assms by (rule well_formed_settle) simp
    then have "well_formed (foldl (\<lambda>s r. run_reaction v r s)
        (s\<lparr>promises := (promises s)[p := Fulfilled v]\<rparr>) rs)"
      by (rule well_formed_foldl [rotated]) (rule well_formed_run_reaction)
    then show ?thesis
      using Some Pending by (simp add: fulfil_def)
  qed (use assms Some in \<open>simp_all add: fulfil_def\<close>)
qed

lemma well_formed_reject_promise:
  assumes "well_formed s" and "p \<notin> set (callbacks s)"
  shows "well_formed (reject_promise p e s)"
  using assms
  by (auto simp: reject_promise_def intro: well_formed_settle split: option.splits promise.splits)

lemma adopts_ok_advances:
  assumes "adopts_ok rs s" and "advances s t"
  shows "adopts_ok rs t"
  unfolding adopts_ok_def
proof (intro allI impI)
  fix p assume "Adopt p \<in> set rs"
  with assms(1) have p: "p < length (promises s)" "p \<notin> set (callbacks s)"
    by (auto simp: adopts_ok_def)
  from assms(2) have "length (promises s) \<le> length (promises t)"
    and "\<forall>c \<in> set (callbacks t). c \<in> set (callbacks s) \<or> length (promises s) \<le> c"
    by (auto simp: advances_def)
  with p show "p < length (promises t) \<and> p \<notin> set (callbacks t)"
    by (metis less_le_trans not_le)
qed

lemma adopts_ok_Cons: "adopts_ok (r # rs) s \<Longrightarrow> adopts_ok rs s"
  by (simp add: adopts_ok_def)

lemma resolve_loop:
  assumes "well_formed s" and "adopts_ok rs s"
  shows "well_formed (foldl (\<lambda>s r. case r of Adopt p \<Rightarrow> fulfil p v s | _ \<Rightarrow> run_reaction v r s) s rs)"
  using assms
proof (induction rs arbitrary: s)
  case Nil
  then show ?case by simp
next
  case (Cons r rs)
  let ?t = "case r of Adopt p \<Rightarrow> fulfil p v s | _ \<Rightarrow> run_reaction v r s"
  have wf: "well_formed ?t"
  proof (cases r)
    case (Adopt p)
    with Cons.prems(2) have "p \<notin> set (callbacks s)" by (simp add: adopts_ok_def)
    with Cons.prems(1) Adopt show ?thesis by (simp add: well_formed_fulfil)
  qed (use Cons.prems(1) in \<open>simp_all add: well_formed_run_reaction del: run_reaction.simps\<close>)
  have "advances s ?t"
    by (rule advances_resolve_reaction)
  with Cons.prems(2) have "adopts_ok rs ?t"
    using adopts_ok_Cons adopts_ok_advances by blast
  with wf show ?case
    using Cons.IH [of ?t] by simp
qed

lemma reject_loop:
  assumes "well_formed s" and "adopts_ok rs s"
  shows "well_formed (foldl (\<lambda>s r. case r of Adopt p \<Rightarrow> reject_promise p e s | _ \<Rightarrow> s) s rs)"
  using assms
proof (induction rs arbitrary: s)
  case Nil
  then show ?case by simp
next
  case (Cons r rs)
  let ?t = "case r of Adopt p \<Rightarrow> reject_promise p e s | _ \<Rightarrow> s"
  have wf: "well_formed ?t"
  proof (cases r)
    case (Adopt p)
    with Cons.prems(2) have "p \<notin> set (callbacks s)" by (simp add: adopts_ok_def)
    with Cons.prems(1) Adopt show ?thesis by (simp add: well_formed_reject_promise)
  qed (use Cons.prems(1) in simp_all)
  have "advances s ?t"
    by (rule advances_reject_reaction)
  with Cons.prems(2) have "adopts_ok rs ?t"
    using adopts_ok_Cons adopts_ok_advances by blast
  with wf show ?case
    using Cons.IH [of ?t] by simp
qed

lemma adopts_ok_pending:
  assumes "well_formed s" and "promise_at s q = Some (Pending rs)"
  shows "adopts_ok rs s"
  using assms well_formed_adopt unfolding adopts_ok_def by blast

lemma adopts_ok_frame:
  "adopts_ok rs s \<Longrightarrow> length (promises s') = length (promises s) \<Longrightarrow> requests s' = requests s \<Longrightarrow>
   adopts_ok rs s'"
  by (simp add: adopts_ok_def callbacks_def)

lemma well_formed_resolve:
  assumes "well_formed s" and "q \<notin> set (callbacks s)"
  shows "well_formed (resolve q v s)"
proof (cases "promise_at s q")
  case None
  with assms show ?thesis by (simp add: resolve_def)
next
  case (Some pr)
  show ?thesis
  proof (cases pr)
    case (Pending rs)
    let ?s1 = "s\<lparr>promises := (promises s)[q := Fulfilled v]\<rparr>"
    have "well_formed ?s1"
      using assms by (rule well_formed_settle) simp
    moreover have "adopts_ok rs ?s1"
    proof -
      have "adopts_ok rs s"
        using adopts_ok_pending [OF assms(1)] Some Pending by simp
      then show ?thesis
        by (rule adopts_ok_frame) simp_all
    qed
    ultimately have "well_formed (foldl (\<lambda>s r. case r of Adopt p \<Rightarrow> fulfil p v s | _ \<Rightarrow> run_reaction v r s) ?s1 rs)"
      by (rule resolve_loop)
    then show ?thesis
      using Some Pending by (simp add: resolve_def)
  qed (use assms Some in \<open>simp_all add: resolve_def\<close>)
qed

lemma well_formed_reject:
  assumes "well_formed s" and "q \<notin> set (callbacks s)"
  shows "well_formed (reject q e s)"
proof (cases "promise_at s q")
  case None
  with assms show ?thesis by (simp add: reject_def)
next
  case (Some pr)
  show ?thesis
  proof (cases pr)
    case (Pending rs)
    let ?s1 = "s\<lparr>promises := (promises s)[q := Rejected e]\<rparr>"
    have "well_formed ?s1"
      using assms by (rule well_formed_settle) simp
    moreover have "adopts_ok rs ?s1"
    proof -
      have "adopts_ok rs s"
        using adopts_ok_pending [OF assms(1)] Some Pending by simp
      then show ?thesis
        by (rule adopts_ok_frame) simp_all
    qed
    ultimately have "well_formed (foldl (\<lambda>s r. case r of Adopt p \<Rightarrow> reject_promise p e s | _ \<Rightarrow> s) ?s1 rs)"
      by (rule reject_loop)
    then show ?thesis
      using Some Pending by (simp add: reject_def)
  qed (use assms Some in \<open>simp_all add: reject_def\<close>)
qed

lemma well_formed_promise_then:
  assumes "well_formed s"
    and "\<And>p. r = Adopt p \<Longrightarrow> p < length (promises s) \<and> p \<notin> set (callbacks s)"
  shows "well_formed (promise_then q r s)"
proof (cases "promise_at s q")
  case None
  with assms show ?thesis by (simp add: promise_then_def)
next
  case (Some pr)
  show ?thesis
  proof (cases pr)
    case (Pending rs)
    let ?t = "s\<lparr>promises := (promises s)[q := Pending (rs @ [r])]\<rparr>"
    have ql: "q < length (promises s)"
      using Some by (rule promise_at_Some_bound)
    have cb: "callbacks ?t = callbacks s" by (simp add: callbacks_def)
    have "well_formed ?t"
    proof (rule well_formedI)
      show "distinct (callbacks ?t)"
        unfolding cb by (rule well_formed_distinct [OF assms(1)])
      show "k \<in> dec_of_nat ` {..<NextId ?t}" if "(k, rq) \<in> set (requests ?t)" for k rq
        using that well_formed_key [OF assms(1)] by simp
      show "\<exists>rs. promise_at ?t (callback rq) = Some (Pending rs)" if "(k, rq) \<in> set (requests ?t)" for k rq
      proof -
        from that have "(k, rq) \<in> set (requests s)" by simp
        then show ?thesis
          using well_formed_pending [OF assms(1)] by (auto simp: promise_at_update)
      qed
      show "p < length (promises ?t) \<and> p \<notin> set (callbacks ?t)"
        if "promise_at ?t q' = Some (Pending rs')" "Adopt p \<in> set rs'" for q' rs' p
      proof (cases "q' = q")
        case True
        with that ql have "Adopt p \<in> set rs \<or> r = Adopt p"
          by (auto simp: promise_at_update)
        then show ?thesis
          unfolding cb using well_formed_adopt [OF assms(1)] Some Pending assms(2) by auto
      next
        case False
        with that(1) have "promise_at s q' = Some (Pending rs')"
          by (simp add: promise_at_update)
        then show ?thesis
          unfolding cb using well_formed_adopt [OF assms(1)] that(2) by simp
      qed
      show "p < length (promises ?t) \<and> p \<notin> set (callbacks ?t)" if "(p, ps) \<in> set (param_waits ?t)" for p ps
        unfolding cb using that well_formed_param_waits [OF assms(1)] by simp
    qed
    then show ?thesis
      using Some Pending by (simp add: promise_then_def)
  next
    case (Fulfilled v)
    then show ?thesis
      using Some assms(1) by (simp add: promise_then_def well_formed_run_reaction del: run_reaction.simps)
  next
    case (Rejected e)
    then show ?thesis
      using Some assms(1) by (simp add: promise_then_def)
  qed
qed

lemma well_formed_invoke_callback:
  assumes "well_formed s" and "callback rq \<notin> set (callbacks s)"
  shows "well_formed (invoke_callback rq err res s)"
  using assms
  by (simp add: invoke_callback_def well_formed_resolve well_formed_reject split: option.splits)

lemma delete_eq_filter: "AList.delete k al = filter (\<lambda>(k', v). k' \<noteq> k) al"
  by (induction al) auto

lemma well_formed_requests_delete:
  assumes "well_formed s"
  shows "well_formed (s\<lparr>requests := AList.delete k (requests s)\<rparr>)"
proof (rule well_formedI)
  let ?t = "s\<lparr>requests := AList.delete k (requests s)\<rparr>"
  have sub: "set (requests ?t) \<subseteq> set (requests s)"
    using set_delete_subset [of k "requests s"] by simp
  have cbs: "c \<in> set (callbacks s)" if "c \<in> set (callbacks ?t)" for c
    using that by (rule callbacks_requests_delete)
  have pa: "promise_at ?t = promise_at s"
    by (simp add: promise_at_def fun_eq_iff)
  have "callbacks ?t = map (\<lambda>(k, rq). callback rq) (filter (\<lambda>(k', rq). k' \<noteq> k) (requests s))"
    by (simp add: callbacks_def delete_eq_filter)
  then show "distinct (callbacks ?t)"
    using well_formed_distinct [OF assms] by (simp add: callbacks_def distinct_map_filter)
  show "k' \<in> dec_of_nat ` {..<NextId ?t}" if "(k', rq) \<in> set (requests ?t)" for k' rq
    using that sub well_formed_key [OF assms, of k' rq] by auto
  show "\<exists>rs. promise_at ?t (callback rq) = Some (Pending rs)" if "(k', rq) \<in> set (requests ?t)" for k' rq
    unfolding pa using that sub well_formed_pending [OF assms, of k' rq] by auto
  show "p < length (promises ?t) \<and> p \<notin> set (callbacks ?t)"
    if "promise_at ?t q = Some (Pending rs)" "Adopt p \<in> set rs" for q rs p
    using that well_formed_adopt [OF assms, of q rs p] cbs unfolding pa by auto
  show "p < length (promises ?t) \<and> p \<notin> set (callbacks ?t)" if "(p, ps) \<in> set (param_waits ?t)" for p ps
    using that well_formed_param_waits [OF assms, of p ps] cbs by auto
qed

lemma removed_callback_unused:
  assumes "well_formed s" and "map_of (requests s) k = Some rq"
  shows "callback rq \<notin> set (callbacks (s\<lparr>requests := AList.delete k (requests s)\<rparr>))"
proof
  assume "callback rq \<in> set (callbacks (s\<lparr>requests := AList.delete k (requests s)\<rparr>))"
  then obtain k' rq' where m: "(k', rq') \<in> set (AList.delete k (requests s))"
    and c: "callback rq = callback rq'"
    by (auto simp: in_callbacks)
  from m have k': "k' \<noteq> k" and m': "(k', rq') \<in> set (requests s)"
    by (auto simp: delete_eq_filter)
  have m0: "(k, rq) \<in> set (requests s)"
    using assms(2) by (rule map_of_SomeD)
  have "inj_on (\<lambda>(k, rq). callback rq) (set (requests s))"
    using well_formed_distinct [OF assms(1)] by (simp add: callbacks_def distinct_map)
  moreover have "(\<lambda>(k, rq). callback rq) (k, rq) = (\<lambda>(k, rq). callback rq) (k', rq')"
    using c by simp
  ultimately have "(k, rq) = (k', rq')"
    using m0 m' by (rule inj_onD)
  with k' show False by simp
qed

lemma well_formed_onmessage:
  assumes "well_formed s"
  shows "well_formed (snd (onmessage data parsed s))"
proof (cases parsed)
  case None
  with assms show ?thesis by (simp add: onmessage_def)
next
  case (Some result)
  show ?thesis
  proof (cases "js_prop (Some result) ''id''")
    case (Inl e)
    with Some assms show ?thesis by (simp add: onmessage_def)
  next
    case (Inr rid)
    show ?thesis
    proof (cases "rid \<noteq> None \<and> rid \<noteq> Some JNull")
      case True
      let ?s1 = "s\<lparr>requests := AList.delete (js_key rid) (requests s)\<rparr>"
      have wf1: "well_formed ?s1"
        using assms by (rule well_formed_requests_delete)
      show ?thesis
      proof (cases "map_of (requests s) (js_key rid)")
        case None
        with Some Inr True wf1 show ?thesis
          by (simp add: onmessage_def Let_def)
      next
        case (Some rq)
        have "callback rq \<notin> set (callbacks ?s1)"
          using assms Some by (rule removed_callback_unused)
        with wf1 have "well_formed (invoke_callback rq err res ?s1)" for err res
          by (rule well_formed_invoke_callback)
        with \<open>parsed = Some result\<close> Inr True Some show ?thesis
          by (simp add: onmessage_def Let_def split: option.splits)
      qed
    next
      case False
      have "well_formed (s\<lparr>dispatched := d\<rparr>)" for d
        using assms by (rule well_formed_frame) simp_all
      moreover have "well_formed (s\<lparr>console_warn := w\<rparr>)" for w
        using assms by (rule well_formed_frame) simp_all
      ultimately show ?thesis
        using Some Inr False assms
        by (auto simp: onmessage_def split: sum.splits option.splits)
    qed
  qed
qed

lemma well_formed_onopen:
  assumes "well_formed s"
  shows "well_formed (onopen s)"
  using assms by (rule well_formed_frame) (simp_all add: onopen_eq)

lemma well_formed_subscribe:
  assumes "well_formed s"
  shows "well_formed (subscribe tg param f s)"
proof (cases "map_of (subIds s) tg")
  case (Some p)
  have "well_formed (promise_then p (Bind tg f) s)"
    using assms by (rule well_formed_promise_then) simp
  with Some show ?thesis
    by (simp add: subscribe_def)
next
  case None
  let ?n = "length (promises s)"
  let ?t = "s\<lparr>promises := promises s @ [Pending []],
      param_waits := param_waits s @ [(?n, param)],
      subIds := AList.update tg ?n (subIds s)\<rparr>"
  have cb: "callbacks ?t = callbacks s" by (simp add: callbacks_def)
  have pa: "promise_at ?t q = (if q = ?n then Some (Pending []) else promise_at s q)" for q
    by (simp add: promise_at_def nth_append)
  have bound: "c < ?n" if "c \<in> set (callbacks s)" for c
    using assms that by (rule well_formed_callback_bound)
  have "well_formed ?t"
  proof (rule well_formedI)
    show "distinct (callbacks ?t)"
      unfolding cb by (rule well_formed_distinct [OF assms])
    show "k \<in> dec_of_nat ` {..<NextId ?t}" if "(k, rq) \<in> set (requests ?t)" for k rq
      using that well_formed_key [OF assms] by simp
    show "\<exists>rs. promise_at ?t (callback rq) = Some (Pending rs)" if "(k, rq) \<in> set (requests ?t)" for k rq
    proof -
      from that have "(k, rq) \<in> set (requests s)" by simp
      then show ?thesis
        using well_formed_pending [OF assms] by (auto simp: pa)
    qed
    show "p < length (promises ?t) \<and> p \<notin> set (callbacks ?t)"
      if "promise_at ?t q = Some (Pending rs)" "Adopt p \<in> set rs" for q rs p
    proof -
      from that have "promise_at s q = Some (Pending rs)"
        by (auto simp: pa split: if_splits)
      then show ?thesis
        unfolding cb using well_formed_adopt [OF assms] that(2) by fastforce
    qed
    show "p < length (promises ?t) \<and> p \<notin> set (callbacks ?t)" if "(p, ps) \<in> set (param_waits ?t)" for p ps
    proof -
      from that consider "(p, ps) \<in> set (param_waits s)" | "p = ?n" by auto
      then show ?thesis
      proof cases
        case 1
        then show ?thesis
          unfolding cb using well_formed_param_waits [OF assms] by fastforce
      next
        case 2
        then show ?thesis
          unfolding cb using bound by auto
      qed
    qed
  qed
  then have "well_formed (promise_then ?n (Bind tg f) ?t)"
    by (rule well_formed_promise_then) simp
  then show ?thesis
    using None by (simp add: subscribe_def Let_def)
qed

lemma well_formed_params_resolved:
  assumes "well_formed s"
  shows "well_formed (params_resolved p s)"
proof (cases "map_of (param_waits s) p")
  case None
  with assms show ?thesis by (simp add: params_resolved_def)
next
  case (Some param)
  let ?n = "length (promises s)"
  let ?s1 = "s\<lparr>param_waits := AList.delete p (param_waits s)\<rparr>"
  let ?s2 = "snd (send ''eth_subscribe'' (Some param) ?s1)"
  have p: "p < ?n \<and> p \<notin> set (callbacks s)"
    using well_formed_param_waits [OF assms map_of_SomeD [OF Some]] .
  have wf1: "well_formed ?s1"
  proof (rule well_formedI)
    have cb: "callbacks ?s1 = callbacks s" by (simp add: callbacks_def)
    have pa: "promise_at ?s1 = promise_at s" by (simp add: promise_at_def fun_eq_iff)
    show "distinct (callbacks ?s1)"
      unfolding cb by (rule well_formed_distinct [OF assms])
    show "k \<in> dec_of_nat ` {..<NextId ?s1}" if "(k, rq) \<in> set (requests ?s1)" for k rq
      using that well_formed_key [OF assms] by simp
    show "\<exists>rs. promise_at ?s1 (callback rq) = Some (Pending rs)" if "(k, rq) \<in> set (requests ?s1)" for k rq
      unfolding pa using that well_formed_pending [OF assms] by simp
    show "q' < length (promises ?s1) \<and> q' \<notin> set (callbacks ?s1)"
      if "promise_at ?s1 q = Some (Pending rs)" "Adopt q' \<in> set rs" for q rs q'
      using that well_formed_adopt [OF assms, of q rs q'] unfolding pa cb by simp
    show "q' < length (promises ?s1) \<and> q' \<notin> set (callbacks ?s1)" if "(q', ps) \<in> set (param_waits ?s1)" for q' ps
    proof -
      from that have "(q', ps) \<in> set (param_waits s)"
        using set_delete_subset [of p "param_waits s"] by auto
      then show ?thesis
        unfolding cb using well_formed_param_waits [OF assms] by fastforce
    qed
  qed
  then have wf2: "well_formed ?s2"
    by (rule well_formed_send)
  have "c = ?n \<or> c \<in> set (callbacks s)" if "c \<in> set (callbacks ?s2)" for c
    using callbacks_send [OF that] by (simp add: callbacks_def)
  with p have "p < length (promises ?s2) \<and> p \<notin> set (callbacks ?s2)"
    by auto
  with wf2 have "well_formed (promise_then ?n (Adopt p) ?s2)"
    by (intro well_formed_promise_then) simp_all
  then show ?thesis
    using Some by (simp add: params_resolved_def Let_def split_beta)
qed

lemma well_formed_teardown:
  assumes "well_formed s"
  shows "well_formed (teardown tg s)"
proof (cases "map_of (subIds s) tg")
  case None
  with assms show ?thesis by (simp add: teardown_def)
next
  case (Some p)
  have "well_formed (s\<lparr>subIds := AList.delete tg (subIds s)\<rparr>)"
    using assms by (rule well_formed_frame) simp_all
  then have "well_formed (promise_then p Unsubscribe (s\<lparr>subIds := AList.delete tg (subIds s)\<rparr>))"
    by (rule well_formed_promise_then) simp
  then show ?thesis
    using Some by (simp add: teardown_def)
qed

lemma well_formed_step:
  assumes "well_formed s"
  shows "well_formed (step e s)"
proof (cases e)
  case OtherSend
  have "well_formed (s\<lparr>NextId := Suc (NextId s)\<rparr>)"
  proof (rule well_formedI)
    let ?t = "s\<lparr>NextId := Suc (NextId s)\<rparr>"
    have cb: "callbacks ?t = callbacks s" by (simp add: callbacks_def)
    have pa: "promise_at ?t = promise_at s" by (simp add: promise_at_def fun_eq_iff)
    show "distinct (callbacks ?t)"
      unfolding cb by (rule well_formed_distinct [OF assms])
    show "k \<in> dec_of_nat ` {..<NextId ?t}" if "(k, rq) \<in> set (requests ?t)" for k rq
      using that well_formed_key [OF assms, of k rq] by (auto simp: lessThan_Suc)
    show "\<exists>rs. promise_at ?t (callback rq) = Some (Pending rs)" if "(k, rq) \<in> set (requests ?t)" for k rq
      unfolding pa using that well_formed_pending [OF assms] by simp
    show "p < length (promises ?t) \<and> p \<notin> set (callbacks ?t)"
      if "promise_at ?t q = Some (Pending rs)" "Adopt p \<in> set rs" for q rs p
      using that well_formed_adopt [OF assms, of q rs p] unfolding pa cb by simp
    show "p < length (promises ?t) \<and> p \<notin> set (callbacks ?t)" if "(p, ps) \<in> set (param_waits ?t)" for p ps
      using that well_formed_param_waits [OF assms, of p ps] unfolding cb by simp
  qed
  with OtherSend show ?thesis by simp
qed (use assms in \<open>simp_all add: well_formed_send well_formed_onopen well_formed_onmessage
      well_formed_subscribe well_formed_params_resolved well_formed_teardown stopEvent_def\<close>)

lemma well_formed_run:
  assumes "well_formed s"
  shows "well_formed (run es s)"
  using assms by (induction es arbitrary: s) (simp_all add: well_formed_step)

lemma well_formed_reachable: "well_formed (run es (constructed n))"
  by (rule well_formed_run) (rule well_formed_constructed)

section \<open>Responses that match a pending call\<close>

lemma js_prop_field: "v \<noteq> JNull \<Longrightarrow> js_prop (Some v) k = Inr (field v k)"
  by (cases v) (simp_all add: field_def)

lemma field_Some_not_null: "field v k = Some x \<Longrightarrow> v \<noteq> JNull"
  by (auto simp: field_def)

lemma advances_settled:
  assumes "advances s t" and "promise_at s p = Some x" and "\<And>rs. x \<noteq> Pending rs"
  shows "promise_at t p = Some x"
  using assms by (auto simp: advances_def promise_at_def split: if_splits)

lemma promise_at_settle:
  "promise_at s q = Some y \<Longrightarrow> promise_at (s\<lparr>promises := (promises s)[q := x]\<rparr>) q = Some x"
  by (auto simp: promise_at_def split: if_splits)

lemma resolve_settles:
  assumes "promise_at s q = Some (Pending rs)"
  shows "promise_at (resolve q v s) q = Some (Fulfilled v)"
proof -
  let ?s1 = "s\<lparr>promises := (promises s)[q := Fulfilled v]\<rparr>"
  let ?g = "\<lambda>s r. case r of Adopt p \<Rightarrow> fulfil p v s | _ \<Rightarrow> run_reaction v r s"
  have "advances ?s1 (foldl ?g ?s1 rs)"
    by (rule advances_foldl) (rule advances_resolve_reaction)
  moreover have "promise_at ?s1 q = Some (Fulfilled v)"
    using assms by (rule promise_at_settle)
  ultimately have "promise_at (foldl ?g ?s1 rs) q = Some (Fulfilled v)"
    by (rule advances_settled) simp
  then show ?thesis
    using assms by (simp add: resolve_def)
qed

lemma reject_settles:
  assumes "promise_at s q = Some (Pending rs)"
  shows "promise_at (reject q e s) q = Some (Rejected e)"
proof -
  let ?s1 = "s\<lparr>promises := (promises s)[q := Rejected e]\<rparr>"
  let ?g = "\<lambda>s r. case r of Adopt p \<Rightarrow> reject_promise p e s | _ \<Rightarrow> s"
  have "advances ?s1 (foldl ?g ?s1 rs)"
    by (rule advances_foldl) (rule advances_reject_reaction)
  moreover have "promise_at ?s1 q = Some (Rejected e)"
    using assms by (rule promise_at_settle)
  ultimately have "promise_at (foldl ?g ?s1 rs) q = Some (Rejected e)"
    by (rule advances_settled) simp
  then show ?thesis
    using assms by (simp add: reject_def)
qed

lemma advances_no_old_key:
  assumes "advances s t" and "i < NextId s" and "dec_of_nat i \<notin> fst ` set (requests s)"
  shows "map_of (requests t) (dec_of_nat i) = None"
proof -
  have "dec_of_nat i \<notin> fst ` set (requests t)"
  proof
    assume "dec_of_nat i \<in> fst ` set (requests t)"
    with assms(1) have "dec_of_nat i \<in> fst ` set (requests s)
        \<or> (\<exists>n. NextId s \<le> n \<and> n < NextId t \<and> dec_of_nat i = dec_of_nat n)"
      unfolding advances_def by blast
    with assms(3) obtain n where "NextId s \<le> n" "dec_of_nat i = dec_of_nat n" by blast
    with assms(2) show False
      using dec_of_nat_inj [of i n] by simp
  qed
  then show ?thesis
    by (simp add: map_of_eq_None_iff)
qed

lemma matched_response:
  assumes i: "i < NextId s"
    and rq: "map_of (requests s) (dec_of_nat i) = Some rq"
    and pend: "promise_at s (callback rq) = Some (Pending rs)"
    and idv: "field result ''id'' = Some idv" "idv \<noteq> JNull" "js_String idv = dec_of_nat i"
  shows "fst (onmessage data (Some result) s) = None"
    and "promise_at (snd (onmessage data (Some result) s)) (callback rq) = Some (response_outcome data result)"
    and "map_of (requests (snd (onmessage data (Some result) s))) (dec_of_nat i) = None"
proof -
  let ?s1 = "s\<lparr>requests := AList.delete (dec_of_nat i) (requests s)\<rparr>"
  let ?err = "case field result ''error'' of
      Some err \<Rightarrow> if truthy err then make_error err data else Error ''unknown error'' None None
    | None \<Rightarrow> Error ''unknown error'' None None"
  let ?t = "case field result ''result'' of
      Some v \<Rightarrow> invoke_callback rq None (Some v) ?s1
    | None \<Rightarrow> invoke_callback rq (Some ?err) None ?s1"
  have nn: "result \<noteq> JNull"
    using idv(1) by (rule field_Some_not_null)
  have om: "onmessage data (Some result) s = (None, ?t)"
    using idv rq
    by (simp add: onmessage_def js_prop_field [OF nn] js_key_def Let_def
        split: option.splits)
  show "fst (onmessage data (Some result) s) = None"
    by (simp add: om)
  have pend1: "promise_at ?s1 (callback rq) = Some (Pending rs)"
    using pend by (simp add: promise_at_def split: if_splits)
  show "promise_at (snd (onmessage data (Some result) s)) (callback rq) = Some (response_outcome data result)"
    unfolding om response_outcome_def
    by (simp add: invoke_callback_def resolve_settles [OF pend1] reject_settles [OF pend1]
        split: option.splits)
  have "advances ?s1 ?t"
    by (simp add: advances_invoke_callback split: option.splits)
  moreover have "i < NextId ?s1"
    using i by simp
  moreover have "dec_of_nat i \<notin> fst ` set (requests ?s1)"
    by (simp add: fst_set_delete)
  ultimately have "map_of (requests ?t) (dec_of_nat i) = None"
    by (rule advances_no_old_key)
  then show "map_of (requests (snd (onmessage data (Some result) s))) (dec_of_nat i) = None"
    by (simp add: om)
qed

lemma reachable_pending_call:
  assumes "s = run es (constructed n)"
    and "map_of (requests s) k = Some rq"
  shows "\<exists>i rs. i < NextId s \<and> k = dec_of_nat i \<and> promise_at s (callback rq) = Some (Pending rs)"
proof -
  have wf: "well_formed s"
    unfolding assms(1) by (rule well_formed_reachable)
  have m: "(k, rq) \<in> set (requests s)"
    using assms(2) by (rule map_of_SomeD)
  show ?thesis
    using well_formed_key [OF wf m] well_formed_pending [OF wf m] by auto
qed

text \<open>
  C1, as the code has it. In a state that a run has reached, a response arrives whose id,
  as a string, is the key of a pending call. No exception leaves the handler and the call
  is removed from \<^verbatim>\<open>_requests\<close>. If the message has a \<^verbatim>\<open>result\<close> property, the
  call's promise is fulfilled with that value. If it has none and its \<^verbatim>\<open>error\<close> is
  truthy, the promise is rejected with an error whose message is the backend's when that is
  truthy and \<^verbatim>\<open>"unknown error"\<close> when it is absent or falsy (the empty string), whose
  code is the backend's when that is truthy and \<^verbatim>\<open>null\<close> when it is absent or falsy
  (0), and whose response is the message text. Otherwise the promise is rejected with the
  plain \<^verbatim>\<open>"unknown error"\<close>.
\<close>

theorem response_routing:
  assumes "s = run es (constructed n)"
    and "field result ''id'' = Some idv" and "idv \<noteq> JNull"
    and "map_of (requests s) (js_String idv) = Some rq"
  shows "fst (onmessage data (Some result) s) = None
    \<and> map_of (requests (snd (onmessage data (Some result) s))) (js_String idv) = None
    \<and> promise_at (snd (onmessage data (Some result) s)) (callback rq) =
        Some (case field result ''result'' of
                Some v \<Rightarrow> Fulfilled (Some v)
              | None \<Rightarrow>
                 (case field result ''error'' of
                    None \<Rightarrow> Rejected (Error ''unknown error'' None None)
                  | Some err \<Rightarrow>
                      if truthy err then
                        Rejected (Error
                          (case field err ''message'' of
                             None \<Rightarrow> ''unknown error''
                           | Some m \<Rightarrow> if truthy m then js_String m else ''unknown error'')
                          (Some (case field err ''code'' of
                                   None \<Rightarrow> JNull
                                 | Some c \<Rightarrow> if truthy c then c else JNull))
                          (Some data))
                      else Rejected (Error ''unknown error'' None None)))"
proof -
  obtain i rs where i: "i < NextId s" and k: "js_String idv = dec_of_nat i"
    and p: "promise_at s (callback rq) = Some (Pending rs)"
    using reachable_pending_call [OF assms(1,4)] by blast
  have rq: "map_of (requests s) (dec_of_nat i) = Some rq"
    using assms(4) k by simp
  show ?thesis
    using matched_response [OF i rq p assms(2,3) k, of data]
    by (simp add: k response_outcome_def make_error_def Let_def split: option.splits)
qed

theorem response_routing_witness:
  "promise_at (snd (onmessage ''raw'' (Some (JObj [(''id'', JNum 7), (''result'', JStr ''0x1'')]))
       (run [Send ''eth_call'' None] (constructed 7)))) 0
     = Some (Fulfilled (Some (JStr ''0x1'')))
   \<and> promise_at (snd (onmessage ''raw''
       (Some (JObj [(''id'', JNum 7), (''error'', JObj [(''code'', JNum (- 32000)), (''message'', JStr ''bad'')])]))
       (run [Send ''eth_call'' None] (constructed 7)))) 0
     = Some (Rejected (Error ''bad'' (Some (JNum (- 32000))) (Some ''raw'')))
   \<and> promise_at (snd (onmessage ''raw'' (Some (JObj [(''id'', JNum 7)]))
       (run [Send ''eth_call'' None] (constructed 7)))) 0
     = Some (Rejected (Error ''unknown error'' None None))"
proof -
  let ?s = "run [Send ''eth_call'' None] (constructed 7)"
  let ?rq = "\<lparr>callback = 0, payload = stringify_request ''eth_call'' None 7\<rparr>"
  have a: "?s = run [Send ''eth_call'' None] (constructed 7)" ..
  have b: "map_of (requests ?s) (js_String (JNum 7)) = Some ?rq"
    by (simp add: constructed_def dec_of_int_def)
  have e: "JNum 7 \<noteq> JNull"
    by simp
  have d1: "field (JObj [(''id'', JNum 7), (''result'', JStr ''0x1'')]) ''id'' = Some (JNum 7)"
    and d2: "field (JObj [(''id'', JNum 7), (''error'', JObj [(''code'', JNum (- 32000)), (''message'', JStr ''bad'')])]) ''id'' = Some (JNum 7)"
    and d3: "field (JObj [(''id'', JNum 7)]) ''id'' = Some (JNum 7)"
    by (simp_all add: field_def)
  show ?thesis
    using response_routing [OF a d1 e b, of "''raw''"]
      response_routing [OF a d2 e b, of "''raw''"]
      response_routing [OF a d3 e b, of "''raw''"]
    by (simp add: field_def)
qed

text \<open>
  C1 as stated fails: the backend sends code 0 with message \<^verbatim>\<open>"bad"\<close> for pending
  call 7, and the error given to the caller carries code \<^verbatim>\<open>null\<close>, not 0.
\<close>

theorem code_zero_not_carried:
  "promise_at (snd (onmessage ''raw''
       (Some (JObj [(''id'', JNum 7), (''error'', JObj [(''code'', JNum 0), (''message'', JStr ''bad'')])]))
       (run [Send ''eth_call'' None] (constructed 7)))) 0
     = Some (Rejected (Error ''bad'' (Some JNull) (Some ''raw'')))"
  by (simp add: onmessage_def constructed_def js_key_def dec_of_int_def field_def Let_def
      invoke_callback_def reject_def promise_at_def make_error_def
      AList.update.simps)

text \<open>
  C10. When the error object of a matching response (one without \<^verbatim>\<open>result\<close>) has
  a falsy code, such as 0, the error given to the caller has code \<^verbatim>\<open>null\<close>, and
  its \<^verbatim>\<open>response\<close> is the text of the message.
\<close>

theorem falsy_code_becomes_null:
  assumes "s = run es (constructed n)"
    and "field result ''id'' = Some idv" and "idv \<noteq> JNull"
    and "map_of (requests s) (js_String idv) = Some rq"
    and "field result ''result'' = None"
    and "field result ''error'' = Some err" and "truthy err"
    and "field err ''code'' = Some c" and "\<not> truthy c"
  shows "\<exists>m. promise_at (snd (onmessage data (Some result) s)) (callback rq)
            = Some (Rejected (Error m (Some JNull) (Some data)))"
proof -
  obtain i rs where i: "i < NextId s" and k: "js_String idv = dec_of_nat i"
    and p: "promise_at s (callback rq) = Some (Pending rs)"
    using reachable_pending_call [OF assms(1,4)] by blast
  have rq: "map_of (requests s) (dec_of_nat i) = Some rq"
    using assms(4) k by simp
  show ?thesis
    using matched_response(2) [OF i rq p assms(2,3) k, of data] assms(5-9)
    by (simp add: response_outcome_def make_error_def Let_def)
qed

theorem falsy_code_becomes_null_witness:
  "\<exists>m. promise_at (snd (onmessage ''text''
       (Some (JObj [(''id'', JStr ''8''), (''error'', JObj [(''code'', JNum 0)])]))
       (run [Send ''eth_call'' None] (constructed 8)))) 0
     = Some (Rejected (Error m (Some JNull) (Some ''text'')))"
proof -
  let ?s = "run [Send ''eth_call'' None] (constructed 8)"
  let ?rq = "\<lparr>callback = 0, payload = stringify_request ''eth_call'' None 8\<rparr>"
  let ?err = "JObj [(''code'', JNum 0)]"
  let ?res = "JObj [(''id'', JStr ''8''), (''error'', ?err)]"
  have a: "?s = run [Send ''eth_call'' None] (constructed 8)" ..
  have b: "map_of (requests ?s) (js_String (JStr ''8'')) = Some ?rq"
    by (simp add: constructed_def dec_of_nat.simps digit_char_def)
  have d: "field ?res ''id'' = Some (JStr ''8'')" and e: "JStr ''8'' \<noteq> JNull"
    and g: "field ?res ''result'' = None" and h: "field ?res ''error'' = Some ?err"
    and k: "truthy ?err" and l: "field ?err ''code'' = Some (JNum 0)" and m: "\<not> truthy (JNum 0)"
    by (simp_all add: field_def)
  show ?thesis
    using falsy_code_becomes_null [OF a d e b g h k l m, of "''text''"] by simp
qed

section \<open>Messages that are neither a response nor a known push\<close>




section \<open>One subscription per tag\<close>











section \<open>Releasing a subscription\<close>







text \<open>
  The same when the release comes before the backend has answered: nothing is sent at the
  release; when the promise is fulfilled the bindings are made, then removed, and one
  \<^verbatim>\<open>eth_unsubscribe\<close> is sent. (The continuation of \<^verbatim>\<open>await\<close> is taken to be
  registered on the promise when \<^verbatim>\<open>_subscribe\<close> is called, before the later
  \<^verbatim>\<open>then\<close> of \<^verbatim>\<open>_stopEvent\<close>.)
\<close>

lemma bind_all:
  "foldl (\<lambda>s r. run_reaction X r s) t (map (Bind tg) fs) =
     t\<lparr>subs := foldl (\<lambda>al f. AList.update (js_key X) \<lparr>tag = tg, processFunc = f\<rparr> al) (subs t) fs\<rparr>"
  by (induction fs arbitrary: t) simp_all

lemma bound_after_binds:
  "fs \<noteq> [] \<Longrightarrow>
   map_of (foldl (\<lambda>al f. AList.update k \<lparr>tag = tg, processFunc = f\<rparr> al) al fs) k \<noteq> None"
proof (induction fs arbitrary: al rule: rev_induct)
  case Nil
  then show ?case by simp
next
  case (snoc f fs)
  show ?case by (simp add: update_conv')
qed

lemma teardown_before_response:
  assumes "map_of (subIds s) tg = Some p"
    and "promise_at s p = Some (Pending (map (Bind tg) fs))"
    and "fs \<noteq> []"
  shows "NextId (teardown tg s) = NextId s
    \<and> websocket_sent (teardown tg s) = websocket_sent s
    \<and> NextId (fulfil p X (teardown tg s)) = Suc (NextId s)
    \<and> websocket_sent (fulfil p X (teardown tg s)) = websocket_sent s @
         (if wsReady s
          then [stringify_request ''eth_unsubscribe'' (Some [undefined_to_null X]) (NextId s)]
          else [])
    \<and> map_of (subs (fulfil p X (teardown tg s))) (js_key X) = None"
proof -
  have p: "p < length (promises s)" and pp: "promises s ! p = Pending (map (Bind tg) fs)"
    using assms(2) by (simp_all add: promise_at_def split: if_splits)
  let ?t = "s\<lparr>subIds := AList.delete tg (subIds s),
      promises := (promises s)[p := Pending (map (Bind tg) fs @ [Unsubscribe])]\<rparr>"
  have td: "teardown tg s = ?t"
    using assms(1) p pp by (simp add: teardown_def promise_then_def promise_at_def)
  let ?al = "foldl (\<lambda>al f. AList.update (js_key X) \<lparr>tag = tg, processFunc = f\<rparr> al) (subs s) fs"
  obtain b where b: "map_of ?al (js_key X) = Some b"
    using bound_after_binds [OF assms(3), of "js_key X" tg "subs s"] by blast
  have "fulfil p X ?t =
      snd (send ''eth_unsubscribe'' (Some [undefined_to_null X])
        (s\<lparr>subIds := AList.delete tg (subIds s),
           promises := (promises s)[p := Fulfilled X],
           subs := AList.delete (js_key X) ?al\<rparr>))"
    using p by (simp add: fulfil_def promise_at_def bind_all b)
  then show ?thesis
    unfolding td by (simp add: delete_conv')
qed

section \<open>Refused operations\<close>

text \<open>
  C7. Resetting the events block and setting the polling interval throw an
  \<^verbatim>\<open>UNSUPPORTED_OPERATION\<close> error at once, whatever the argument and the state.
\<close>

theorem unsupported_operations_throw:
  "resetEventsBlock blockNumber s =
     Inl (LoggerError ''cannot reset events block on WebSocketProvider'' UNSUPPORTED_OPERATION ''resetEventBlock'')
   \<and> set_pollingInterval v s =
     Inl (LoggerError ''cannot set polling interval on WebSocketProvider'' UNSUPPORTED_OPERATION ''setPollingInterval'')"
  by (simp add: resetEventsBlock_def set_pollingInterval_def throwError_def)

text \<open>
  C9. The polling setter is asymmetric: assigning \<^verbatim>\<open>false\<close> returns and leaves the
  provider as it is, assigning \<^verbatim>\<open>true\<close> throws an \<^verbatim>\<open>UNSUPPORTED_OPERATION\<close>
  error.
\<close>

theorem set_polling_asymmetric:
  "set_polling False s = Inr s
   \<and> set_polling True s =
     Inl (LoggerError ''cannot set polling on WebSocketProvider'' UNSUPPORTED_OPERATION ''setPolling'')"
  by (simp add: set_polling_def throwError_def)

section \<open>Responses that match no pending call\<close>

text \<open>
  A response whose id is the key of no pending call: \<^verbatim>\<open>request\<close> is
  \<^verbatim>\<open>undefined\<close>, reading \<^verbatim>\<open>request.callback\<close> raises a \<^verbatim>\<open>TypeError\<close>, and
  the state is as it was.
\<close>

lemma unmatched_response:
  assumes "field result ''id'' = Some idv" and "idv \<noteq> JNull"
    and "map_of (requests s) (js_String idv) = None"
  shows "onmessage data (Some result) s = (Some TypeError, s)"
proof -
  have nn: "result \<noteq> JNull"
    using assms(1) by (rule field_Some_not_null)
  have "js_String idv \<notin> fst ` set (requests s)"
    using assms(3) by (simp add: map_of_eq_None_iff)
  then have "AList.delete (js_String idv) (requests s) = requests s"
    by (rule delete_id)
  then show ?thesis
    using assms by (simp add: onmessage_def js_prop_field [OF nn] js_key_def Let_def)
qed

text \<open>
  C2. A response whose id matches no pending call is not dropped silently: a
  \<^verbatim>\<open>TypeError\<close> leaves the handler. Here call 1 is pending and a response for id 2
  arrives: the pending call is left alone, no callback runs, and the exception is raised.
\<close>

theorem unmatched_id_raises:
  "onmessage ''raw'' (Some (JObj [(''id'', JNum 2), (''result'', JStr ''0x1'')]))
     (snd (send ''eth_blockNumber'' (Some []) (constructed 1)))
   = (Some TypeError, snd (send ''eth_blockNumber'' (Some []) (constructed 1)))"
  by (simp add: onmessage_def send_def send_rid_def constructed_def js_key_def dec_of_int_def
      dec_of_nat.simps digit_char_def stringify_request_def)

end
